theory Spec2Isabelle
  imports Main "HOL-Library.Sublist" "HOL-Library.Multiset"
begin

section \<open>Strings and the platform's string helpers\<close>

text \<open>
  A source string is a \<open>string\<close>: one \<open>char\<close> per code unit. The source's literals
  that are not ASCII are given by their UTF-8 bytes; the properties below only compare
  them for equality. \<open>substring\<close> counts UTF-16 units in the source and bytes here; no
  property below depends on a length.
\<close>

definition isWhiteSpace :: "char \<Rightarrow> bool" where
  "isWhiteSpace c \<longleftrightarrow> c \<in> {CHR 0x09, CHR 0x0A, CHR 0x0B, CHR 0x0C, CHR 0x0D, CHR '' ''}"

text \<open>\<open>String.prototype.trim\<close>: white space is removed at both ends. The white space of
  the model is the ASCII one (tab, line feed, vertical tab, form feed, carriage return, space);
  the platform also removes the white space characters beyond ASCII.\<close>

definition trim :: "string \<Rightarrow> string" where
  "trim s = rev (dropWhile isWhiteSpace (rev (dropWhile isWhiteSpace s)))"

text \<open>\<open>s.replace(/\/$/, '')\<close>: one slash at the end of the text is removed.\<close>

definition stripTrailingSlash :: "string \<Rightarrow> string" where
  "stripTrailingSlash s = (if s \<noteq> [] \<and> last s = CHR ''/'' then butlast s else s)"

text \<open>\<open>a || b\<close> on an optional string: \<open>undefined\<close> and the empty string are falsy.\<close>

fun orElse :: "string option \<Rightarrow> string \<Rightarrow> string" where
  "orElse None d = d"
| "orElse (Some s) d = (if s = [] then d else s)"

fun orElseOpt :: "string option \<Rightarrow> string option \<Rightarrow> string option" where
  "orElseOpt None d = d"
| "orElseOpt (Some s) d = (if s = [] then d else Some s)"

text \<open>A number printed in decimal, as a template literal prints it.\<close>

definition digitChar :: "nat \<Rightarrow> char" where
  "digitChar d = char_of (48 + d)"

fun showNat :: "nat \<Rightarrow> string" where
  "showNat n = (if n < 10 then [digitChar n] else showNat (n div 10) @ [digitChar (n mod 10)])"

declare showNat.simps [simp del]

text \<open>The source's literals. \<open>noTitle\<close> is the three-character default title of an
  entry, \<open>msgCancelled\<close> the message of the cancellation error, \<open>msgTimeout\<close> that of the
  30 s timer, \<open>msgNoItems\<close> "this feed has no articles", \<open>msgBadProtocol\<close> "only HTTP and HTTPS are
  supported", \<open>msgBadUrl\<close> "invalid URL format", \<open>msgUnparseable\<close> the resolver's only
  error message, \<open>msgFetchPrefix\<close> and \<open>msgNetwork\<close> the two parts of the proxy
  fetcher's message.\<close>

definition noTitle :: string where
  "noTitle = [CHR 0xE6, CHR 0x97, CHR 0xA0, CHR 0xE6, CHR 0xA0, CHR 0x87, CHR 0xE9, CHR 0xA2, CHR 0x98]"

definition msgCancelled :: string where
  "msgCancelled = [CHR 0xE5, CHR 0xB7, CHR 0xB2, CHR 0xE5, CHR 0x8F, CHR 0x96, CHR 0xE6, CHR 0xB6, CHR 0x88]"

definition msgTimeout :: string where
  "msgTimeout = [CHR 0xE8, CHR 0xAF, CHR 0xB7, CHR 0xE6, CHR 0xB1, CHR 0x82, CHR 0xE8, CHR 0xB6, CHR 0x85,
     CHR 0xE6, CHR 0x97, CHR 0xB6]"

definition msgNoItems :: string where
  "msgNoItems = [CHR 0xE8, CHR 0xAF, CHR 0xA5, CHR 0xE8, CHR 0xAE, CHR 0xA2, CHR 0xE9, CHR 0x98, CHR 0x85,
     CHR 0xE6, CHR 0xBA, CHR 0x90, CHR 0xE6, CHR 0xB2, CHR 0xA1, CHR 0xE6, CHR 0x9C, CHR 0x89, CHR 0xE6,
     CHR 0x96, CHR 0x87, CHR 0xE7, CHR 0xAB, CHR 0xA0]"

definition msgBadProtocol :: string where
  "msgBadProtocol = [CHR 0xE5, CHR 0x8F, CHR 0xAA, CHR 0xE6, CHR 0x94, CHR 0xAF, CHR 0xE6, CHR 0x8C, CHR 0x81]
     @ '' HTTP '' @ [CHR 0xE5, CHR 0x92, CHR 0x8C] @ '' HTTPS ''
     @ [CHR 0xE5, CHR 0x8D, CHR 0x8F, CHR 0xE8, CHR 0xAE, CHR 0xAE]"

definition msgBadUrl :: string where
  "msgBadUrl = ''URL '' @ [CHR 0xE6, CHR 0xA0, CHR 0xBC, CHR 0xE5, CHR 0xBC, CHR 0x8F, CHR 0xE6, CHR 0x97,
     CHR 0xA0, CHR 0xE6, CHR 0x95, CHR 0x88]"

definition msgUnparseable :: string where
  "msgUnparseable = [CHR 0xE6, CHR 0x97, CHR 0xA0, CHR 0xE6, CHR 0xB3, CHR 0x95, CHR 0xE8, CHR 0xA7, CHR 0xA3,
     CHR 0xE6, CHR 0x9E, CHR 0x90, CHR 0xE8, CHR 0xAF, CHR 0xA5, CHR 0xE8, CHR 0xAE, CHR 0xA2, CHR 0xE9,
     CHR 0x98, CHR 0x85, CHR 0xE6, CHR 0xBA, CHR 0x90, CHR 0xEF, CHR 0xBC, CHR 0x8C, CHR 0xE8, CHR 0xAF,
     CHR 0xB7, CHR 0xE6, CHR 0xA3, CHR 0x80, CHR 0xE6, CHR 0x9F, CHR 0xA5]
     @ '' URL '' @ [CHR 0xE6, CHR 0x98, CHR 0xAF, CHR 0xE5, CHR 0x90, CHR 0xA6, CHR 0xE6, CHR 0xAD, CHR 0xA3,
     CHR 0xE7, CHR 0xA1, CHR 0xAE]"

definition msgFetchPrefix :: string where
  "msgFetchPrefix = [CHR 0xE6, CHR 0x97, CHR 0xA0, CHR 0xE6, CHR 0xB3, CHR 0x95, CHR 0xE8, CHR 0x8E, CHR 0xB7,
     CHR 0xE5, CHR 0x8F, CHR 0x96, CHR 0xE8, CHR 0xAE, CHR 0xA2, CHR 0xE9, CHR 0x98, CHR 0x85, CHR 0xE5,
     CHR 0x86, CHR 0x85, CHR 0xE5, CHR 0xAE, CHR 0xB9] @ '': ''"

definition msgNetwork :: string where
  "msgNetwork = [CHR 0xE7, CHR 0xBD, CHR 0x91, CHR 0xE7, CHR 0xBB, CHR 0x9C, CHR 0xE9, CHR 0x94, CHR 0x99,
     CHR 0xE8, CHR 0xAF, CHR 0xAF]"

section \<open>Data model\<close>

text \<open>The items of a \<open>ParsedFeed\<close>: every field is optional.\<close>

record ParsedItem =
  p_title :: "string option"
  p_link :: "string option"
  p_content :: "string option"
  p_contentSnippet :: "string option"
  p_pubDate :: "string option"
  p_author :: "string option"
  p_categories :: "string list option"
  p_guid :: "string option"

record ParsedFeed =
  pf_title :: string
  pf_description :: "string option"
  pf_items :: "ParsedItem list"

record RSSFeed =
  feed_id :: string
  feed_title :: string
  feed_url :: string
  feed_description :: "string option"
  feed_lastUpdated :: "nat option"

record RSSItem =
  item_id :: string
  feedId :: string
  item_title :: string
  item_link :: string
  item_description :: "string option"
  item_content :: "string option"
  item_pubDate :: "string option"
  item_author :: "string option"
  item_categories :: "string list option"
  isRead :: bool
  isStarred :: bool

text \<open>The two collections the hook keeps in React state.\<close>

record app_state =
  feeds :: "RSSFeed list"
  items :: "RSSItem list"

text \<open>How a promise settles.\<close>

datatype 'a settled = Fulfilled 'a | Rejected string

section \<open>convertToRSSItems\<close>

text \<open>
  \<open>now i\<close> is what \<open>Date.now()\<close> returns when the item with index \<open>i\<close> is converted.
  \<open>item.guid || index\<close>: the index is used when the guid is absent or empty.
\<close>

definition convertItem :: "string \<Rightarrow> (nat \<Rightarrow> nat) \<Rightarrow> nat \<Rightarrow> ParsedItem \<Rightarrow> RSSItem" where
  "convertItem fid now index item =
     \<lparr> item_id = fid @ ''-'' @ orElse (p_guid item) (showNat index) @ ''-'' @ showNat (now index),
       feedId = fid,
       item_title = orElse (p_title item) noTitle,
       item_link = orElse (p_link item) '''',
       item_description =
         Some (orElse (orElseOpt (p_contentSnippet item) (map_option (take 200) (p_content item))) ''''),
       item_content = Some (orElse (orElseOpt (p_content item) (p_contentSnippet item)) ''''),
       item_pubDate = p_pubDate item,
       item_author = p_author item,
       item_categories = p_categories item,
       isRead = False,
       isStarred = False \<rparr>"

definition convertToRSSItems :: "ParsedItem list \<Rightarrow> string \<Rightarrow> (nat \<Rightarrow> nat) \<Rightarrow> RSSItem list" where
  "convertToRSSItems parsedItems fid now =
     map (\<lambda>(index, item). convertItem fid now index item) (enumerate 0 parsedItems)"

section \<open>refreshFeed\<close>

text \<open>The callback of \<open>newItems.map\<close>: \<open>prev.find\<close> returns the first element of the
  stored list with the new item's link, whatever feed it belongs to.\<close>

definition mergeItem :: "RSSItem list \<Rightarrow> RSSItem \<Rightarrow> RSSItem" where
  "mergeItem prev newItem =
     (case List.find (\<lambda>i. item_link i = item_link newItem) prev of
        Some existing \<Rightarrow> newItem\<lparr>isRead := isRead existing, isStarred := isStarred existing\<rparr>
      | None \<Rightarrow> newItem)"

text \<open>The updater passed to \<open>setItems\<close>.\<close>

definition mergeItems :: "string \<Rightarrow> RSSItem list \<Rightarrow> RSSItem list \<Rightarrow> RSSItem list" where
  "mergeItems fid newItems prev =
     (let filtered = filter (\<lambda>i. feedId i \<noteq> fid) prev;
          merged = map (mergeItem prev) newItems
      in merged @ filtered)"

text \<open>
  \<open>refreshFeed\<close>: \<open>outcome\<close> is how the race of \<open>parseRSSFeed(feed.url)\<close> against the
  30 s timer settles, \<open>now\<close> the clock read by \<open>convertToRSSItems\<close>, \<open>stamp\<close> the clock
  read for \<open>lastUpdated\<close>. An unknown feed id returns at once and a rejection is only
  logged: both leave the state as it is.
\<close>

definition refreshFeed ::
  "app_state \<Rightarrow> string \<Rightarrow> ParsedFeed settled \<Rightarrow> (nat \<Rightarrow> nat) \<Rightarrow> nat \<Rightarrow> app_state" where
  "refreshFeed st fid outcome now stamp =
     (case List.find (\<lambda>f. feed_id f = fid) (feeds st) of
        None \<Rightarrow> st
      | Some feed \<Rightarrow>
          (case outcome of
             Rejected err \<Rightarrow> st
           | Fulfilled parsed \<Rightarrow>
               (let newItems = convertToRSSItems (pf_items parsed) fid now
                in st\<lparr> items := mergeItems fid newItems (items st),
                       feeds := map (\<lambda>f. if feed_id f = fid then f\<lparr>feed_lastUpdated := Some stamp\<rparr> else f)
                                  (feeds st) \<rparr>)))"

text \<open>The entries of one feed, and what two entries are compared by.\<close>

definition entriesOf :: "string \<Rightarrow> RSSItem list \<Rightarrow> RSSItem list" where
  "entriesOf fid xs = filter (\<lambda>i. feedId i = fid) xs"

definition entryKey :: "RSSItem \<Rightarrow> string \<times> string option \<times> bool \<times> bool" where
  "entryKey i = (item_link i, item_content i, isRead i, isStarred i)"

section \<open>The resolver: parseRSSFeed\<close>

definition RSS_SUFFIXES :: "string list" where
  "RSS_SUFFIXES = ['''', ''/feed'', ''/feed/'', ''/rss'', ''/rss/'', ''/index.xml'', ''/feed.xml'',
     ''/rss.xml'', ''?format=rss'', ''?format=atom'', ''/atom'', ''/atom.xml'']"

text \<open>\<open>CORS_PROXIES\<close>; \<open>enc\<close> is the platform's \<open>encodeURIComponent\<close>.\<close>

definition CORS_PROXIES :: "(string \<Rightarrow> string) \<Rightarrow> (string \<Rightarrow> string) list" where
  "CORS_PROXIES enc =
     [\<lambda>url. ''https://api.allorigins.win/raw?url='' @ enc url,
      \<lambda>url. ''https://corsproxy.io/?'' @ enc url,
      \<lambda>url. ''https://api.codetabs.com/v1/proxy?quest='' @ enc url]"

text \<open>
  The network, as \<open>fetchWithTimeout\<close> sees it: a request throws (a network error, or the abort
  of the 15 s timer) with a message, or answers with \<open>response.ok\<close> and the outcome of
  \<open>response.text()\<close>.
\<close>

datatype fetch_result = FetchThrows string | Response bool "string settled"

type_synonym network = "string \<Rightarrow> fetch_result"

text \<open>The loop of \<open>fetchWithProxy\<close> over the proxies, with its \<open>lastError\<close>. An answer that
  is not ok moves on to the next proxy and leaves \<open>lastError\<close> as it is.\<close>

fun fetchWithProxyLoop ::
  "network \<Rightarrow> string \<Rightarrow> (string \<Rightarrow> string) list \<Rightarrow> string option \<Rightarrow> string settled" where
  "fetchWithProxyLoop net url [] lastError = Rejected (msgFetchPrefix @ orElse lastError msgNetwork)"
| "fetchWithProxyLoop net url (proxyFn # rest) lastError =
     (case net (proxyFn url) of
        FetchThrows m \<Rightarrow> fetchWithProxyLoop net url rest (Some m)
      | Response ok body \<Rightarrow>
          (if ok then
             (case body of
                Fulfilled xmlText \<Rightarrow> Fulfilled xmlText
              | Rejected m \<Rightarrow> fetchWithProxyLoop net url rest (Some m))
           else fetchWithProxyLoop net url rest lastError))"

definition fetchWithProxy :: "network \<Rightarrow> (string \<Rightarrow> string) \<Rightarrow> string \<Rightarrow> string settled" where
  "fetchWithProxy net enc url = fetchWithProxyLoop net url (CORS_PROXIES enc) None"

text \<open>
  \<open>tryParseUrl\<close>. \<open>parseDoc\<close> stands for what the function does with the fetched text: the
  platform's \<open>DOMParser\<close>, the detection of the format and the extraction of the entries;
  it is \<open>None\<close> for a parser error, for a document that is no RSS, Atom or RDF, and for any
  exception. A failed fetch is caught and gives \<open>null\<close>: its message is dropped here.
\<close>

definition tryParseUrl ::
  "network \<Rightarrow> (string \<Rightarrow> ParsedFeed option) \<Rightarrow> (string \<Rightarrow> string) \<Rightarrow> string \<Rightarrow> ParsedFeed option" where
  "tryParseUrl net parseDoc enc url =
     (case fetchWithProxy net enc url of
        Rejected m \<Rightarrow> None
      | Fulfilled xmlText \<Rightarrow> parseDoc xmlText)"

text \<open>
  \<open>Promise.all\<close> over promises that never reject: \<open>vs\<close> is what the promises settle with,
  by position, and \<open>order\<close> lists the positions in the order in which they settle. Each
  result is stored at its own position; the array is returned once every position is filled,
  and the promise is still pending (\<open>None\<close>) otherwise.
\<close>

definition promiseAll :: "nat list \<Rightarrow> 'a list \<Rightarrow> 'a list option" where
  "promiseAll order vs =
     those (foldl (\<lambda>arr i. if i < length vs then arr[i := Some (vs ! i)] else arr)
                  (replicate (length vs) None) order)"

text \<open>The callback mapped over \<open>RSS_SUFFIXES.slice(1)\<close>.\<close>

definition suffixAttempt ::
  "network \<Rightarrow> (string \<Rightarrow> ParsedFeed option) \<Rightarrow> (string \<Rightarrow> string) \<Rightarrow> string \<Rightarrow> string \<Rightarrow> ParsedFeed option" where
  "suffixAttempt net parseDoc enc baseUrl sfx =
     (case tryParseUrl net parseDoc enc (baseUrl @ sfx) of
        Some result \<Rightarrow> if length (pf_items result) > 0 then Some result else None
      | None \<Rightarrow> None)"

text \<open>The second half of \<open>parseRSSFeed\<close>: all suffixes are tried, the results are awaited
  together, and \<open>results.find\<close> takes the first one by position that is not \<open>null\<close>.\<close>

definition probeSuffixes ::
  "network \<Rightarrow> (string \<Rightarrow> ParsedFeed option) \<Rightarrow> (string \<Rightarrow> string) \<Rightarrow> nat list \<Rightarrow> string
     \<Rightarrow> ParsedFeed settled option" where
  "probeSuffixes net parseDoc enc order baseUrl =
     (case promiseAll order (map (suffixAttempt net parseDoc enc baseUrl) (drop 1 RSS_SUFFIXES)) of
        None \<Rightarrow> None
      | Some results \<Rightarrow>
          (case List.find (\<lambda>r. r \<noteq> None) results of
             Some (Some successfulResult) \<Rightarrow> Some (Fulfilled successfulResult)
           | _ \<Rightarrow> Some (Rejected msgUnparseable)))"

text \<open>\<open>parseRSSFeed\<close>: \<open>None\<close> is a promise that has not settled, \<open>Some (Fulfilled feed)\<close> the
  returned feed, \<open>Some (Rejected m)\<close> the thrown error with message \<open>m\<close>.\<close>

definition parseRSSFeed ::
  "network \<Rightarrow> (string \<Rightarrow> ParsedFeed option) \<Rightarrow> (string \<Rightarrow> string) \<Rightarrow> nat list \<Rightarrow> string
     \<Rightarrow> ParsedFeed settled option" where
  "parseRSSFeed net parseDoc enc order url =
     (let baseUrl = stripTrailingSlash (trim url)
      in case tryParseUrl net parseDoc enc baseUrl of
           Some directResult \<Rightarrow>
             if length (pf_items directResult) > 0 then Some (Fulfilled directResult)
             else probeSuffixes net parseDoc enc order baseUrl
         | None \<Rightarrow> probeSuffixes net parseDoc enc order baseUrl)"

section \<open>Batch ingestion: addFeedsBatch\<close>

text \<open>The \<open>results\<close> object of \<open>addFeedsBatch\<close>.\<close>

record IngestionResult =
  success :: nat
  failed :: nat
  skipped :: nat
  errors :: "string list"

definition emptyResult :: IngestionResult where
  "emptyResult = \<lparr> success = 0, failed = 0, skipped = 0, errors = [] \<rparr>"

definition MAX_CONCURRENT :: nat where
  "MAX_CONCURRENT = 10"

subsection \<open>Validation and filtering\<close>

text \<open>
  The body of the loop over \<open>urls\<close>. \<open>urlProtocol\<close> stands for the platform's \<open>URL\<close>
  constructor: \<open>None\<close> when it throws, else the \<open>protocol\<close> of the parsed address.
  \<open>existingUrls\<close> is the set built once, before the loop, from the feeds of the hook.
\<close>

definition prefilterStep ::
  "(string \<Rightarrow> string option) \<Rightarrow> string set \<Rightarrow> IngestionResult \<times> string list \<Rightarrow> string
     \<Rightarrow> IngestionResult \<times> string list" where
  "prefilterStep urlProtocol existingUrls acc url =
     (case acc of (res, validUrls) \<Rightarrow>
        (case urlProtocol (trim url) of
           None \<Rightarrow>
             (res\<lparr> failed := failed res + 1, errors := errors res @ [url @ '': '' @ msgBadUrl] \<rparr>, validUrls)
         | Some protocol \<Rightarrow>
             if protocol \<notin> set [''http:'', ''https:''] then
               (res\<lparr> failed := failed res + 1, errors := errors res @ [url @ '': '' @ msgBadProtocol] \<rparr>,
                validUrls)
             else if trim url \<in> existingUrls then (res\<lparr> skipped := skipped res + 1 \<rparr>, validUrls)
             else (res, validUrls @ [trim url])))"

definition prefilter ::
  "(string \<Rightarrow> string option) \<Rightarrow> RSSFeed list \<Rightarrow> string list \<Rightarrow> IngestionResult \<times> string list" where
  "prefilter urlProtocol fs urls =
     foldl (prefilterStep urlProtocol (set (map feed_url fs))) (emptyResult, []) urls"

subsection \<open>The worker pool\<close>

text \<open>
  The workers run on one event loop: between two awaits a worker runs alone. A worker is at
  the head of its \<open>while\<close> loop, or waits for the race it started for a claimed address, or
  has left the loop.
\<close>

datatype worker = AtLoopHead | Waiting string | Done

text \<open>
  The state of one call: the live collections (\<open>app\<close>), the \<open>results\<close> object, the
  candidates \<open>newUrls\<close>, the shared \<open>index\<close> and \<open>completed\<close> counters, the abort flag of the
  call's controller and the workers. Two logs record what the call does to its
  surroundings: \<open>calls\<close>, the addresses passed to \<open>parseRSSFeed\<close> (the only network access
  of the call), and \<open>progress\<close>, the arguments of each call of \<open>onProgress\<close>.
\<close>

record batch_state =
  app :: app_state
  results :: IngestionResult
  newUrls :: "string list"
  index :: nat
  completed :: nat
  aborted :: bool
  workers :: "worker list"
  calls :: "string list"
  progress :: "(nat \<times> nat) list"

text \<open>The head of the loop of worker \<open>w\<close>, up to its \<open>await\<close>: the loop ends when no
  address is left or the controller is aborted; else the next address is claimed and the race
  for it is started.\<close>

definition claimNext :: "batch_state \<Rightarrow> nat \<Rightarrow> batch_state" where
  "claimNext s w =
     (if index s < length (newUrls s) then
        (if aborted s then s\<lparr> workers := (workers s)[w := Done] \<rparr>
         else
           (let currentUrl = newUrls s ! index s
            in s\<lparr> index := index s + 1,
                  calls := calls s @ [currentUrl],
                  workers := (workers s)[w := Waiting currentUrl] \<rparr>))
      else s\<lparr> workers := (workers s)[w := Done] \<rparr>)"

text \<open>The \<open>finally\<close> block.\<close>

definition finallyBlock :: "batch_state \<Rightarrow> batch_state" where
  "finallyBlock s =
     (let s1 = s\<lparr> completed := completed s + 1 \<rparr>
      in if \<not> aborted s1 then s1\<lparr> progress := progress s1 @ [(completed s1, length (newUrls s1))] \<rparr>
         else s1)"

text \<open>The \<open>catch\<close> block for an error with message \<open>msg\<close> (every rejection in this code
  is an \<open>Error\<close>): the result is the state and whether the loop is left by \<open>break\<close>.\<close>

definition catchBlock :: "batch_state \<Rightarrow> string \<Rightarrow> string \<Rightarrow> batch_state \<times> bool" where
  "catchBlock s currentUrl msg =
     (if msg = msgCancelled then (s, True)
      else (s\<lparr> results := (results s)\<lparr> failed := failed (results s) + 1,
                                         errors := errors (results s) @ [currentUrl @ '': '' @ msg] \<rparr> \<rparr>,
            False))"

text \<open>The \<open>else\<close> branch that commits a parsed feed: \<open>newId\<close> is what \<open>generateId()\<close>
  returns, \<open>stamp\<close> and \<open>now\<close> are the clock read for the feed and for its items.\<close>

definition commitFeed ::
  "batch_state \<Rightarrow> string \<Rightarrow> ParsedFeed \<Rightarrow> string \<Rightarrow> nat \<Rightarrow> (nat \<Rightarrow> nat) \<Rightarrow> batch_state" where
  "commitFeed s currentUrl parsed newId stamp now =
     (let newFeed = \<lparr> feed_id = newId, feed_title = pf_title parsed, feed_url = currentUrl,
                       feed_description = pf_description parsed, feed_lastUpdated = Some stamp \<rparr>;
          newItems = convertToRSSItems (pf_items parsed) (feed_id newFeed) now
      in s\<lparr> app := \<lparr> feeds = newFeed # feeds (app s), items = newItems @ items (app s) \<rparr>,
            results := (results s)\<lparr> success := success (results s) + 1 \<rparr> \<rparr>)"

text \<open>The body of the \<open>try\<close> after the race has settled with \<open>outcome\<close>, with the \<open>catch\<close>.\<close>

definition tryBlock ::
  "batch_state \<Rightarrow> string \<Rightarrow> ParsedFeed settled \<Rightarrow> string \<Rightarrow> nat \<Rightarrow> (nat \<Rightarrow> nat) \<Rightarrow> batch_state \<times> bool" where
  "tryBlock s currentUrl outcome newId stamp now =
     (case outcome of
        Rejected msg \<Rightarrow> catchBlock s currentUrl msg
      | Fulfilled parsed \<Rightarrow>
          if aborted s then catchBlock s currentUrl msgCancelled
          else if length (pf_items parsed) = 0 then
            (s\<lparr> results := (results s)\<lparr> failed := failed (results s) + 1,
                                          errors := errors (results s) @ [currentUrl @ '': '' @ msgNoItems] \<rparr> \<rparr>,
             False)
          else (commitFeed s currentUrl parsed newId stamp now, False))"

text \<open>The end of an iteration of worker \<open>w\<close>: the \<open>finally\<close> block runs, and then the
  loop is left (after \<open>break\<close>) or its head runs again.\<close>

definition endOfIteration :: "batch_state \<times> bool \<Rightarrow> nat \<Rightarrow> batch_state" where
  "endOfIteration r w =
     (case r of (s1, leave) \<Rightarrow>
        (let s2 = finallyBlock s1
         in if leave then s2\<lparr> workers := (workers s2)[w := Done] \<rparr>
            else claimNext (s2\<lparr> workers := (workers s2)[w := AtLoopHead] \<rparr>) w))"

text \<open>Worker \<open>w\<close>, waiting for \<open>currentUrl\<close>, resumes when its race settles.\<close>

definition resume ::
  "batch_state \<Rightarrow> nat \<Rightarrow> string \<Rightarrow> ParsedFeed settled \<Rightarrow> string \<Rightarrow> nat \<Rightarrow> (nat \<Rightarrow> nat) \<Rightarrow> batch_state" where
  "resume s w currentUrl outcome newId stamp now =
     endOfIteration (tryBlock s currentUrl outcome newId stamp now) w"

text \<open>
  What happens to a running call. \<open>Settle w outcome newId stamp now\<close>: the race of worker
  \<open>w\<close> settles, by the resolver's answer or by the 30 s timer (\<open>Rejected msgTimeout\<close>).
  \<open>Abort\<close>: the controller is aborted; the abort listener of every waiting worker rejects
  its race with the cancellation error, and each of these workers runs its \<open>catch\<close> and
  \<open>finally\<close> and leaves its loop.
\<close>

datatype event = Settle nat "ParsedFeed settled" string nat "nat \<Rightarrow> nat" | Abort

definition cancelWorker :: "batch_state \<Rightarrow> nat \<Rightarrow> batch_state" where
  "cancelWorker s w =
     (case workers s ! w of
        Waiting currentUrl \<Rightarrow> endOfIteration (catchBlock s currentUrl msgCancelled) w
      | _ \<Rightarrow> s)"

definition step :: "batch_state \<Rightarrow> event \<Rightarrow> batch_state" where
  "step s ev =
     (case ev of
        Settle w outcome newId stamp now \<Rightarrow>
          (if w < length (workers s) then
             (case workers s ! w of
                Waiting currentUrl \<Rightarrow> resume s w currentUrl outcome newId stamp now
              | _ \<Rightarrow> s)
           else s)
      | Abort \<Rightarrow> foldl cancelWorker (s\<lparr> aborted := True \<rparr>) [0..<length (workers s)])"

text \<open>
  The start of the call: the filter, the early return when no candidate is left, and the
  start of \<open>min(MAX_CONCURRENT, newUrls.length)\<close> workers, each running to its first
  \<open>await\<close>.
\<close>

definition startBatch :: "(string \<Rightarrow> string option) \<Rightarrow> app_state \<Rightarrow> string list \<Rightarrow> batch_state" where
  "startBatch urlProtocol st urls =
     (case prefilter urlProtocol (feeds st) urls of
        (res, validUrls) \<Rightarrow>
          (let s0 = \<lparr> app = st, results = res, newUrls = validUrls, index = 0, completed = 0,
                      aborted = False, workers = [], calls = [], progress = [] \<rparr>
           in if length validUrls = 0 then s0
              else foldl claimNext
                     (s0\<lparr> workers := replicate (min MAX_CONCURRENT (length validUrls)) AtLoopHead \<rparr>)
                     [0..<min MAX_CONCURRENT (length validUrls)]))"

text \<open>The call under a list of events.\<close>

definition addFeedsBatch ::
  "(string \<Rightarrow> string option) \<Rightarrow> app_state \<Rightarrow> string list \<Rightarrow> event list \<Rightarrow> batch_state" where
  "addFeedsBatch urlProtocol st urls evs = foldl step (startBatch urlProtocol st urls) evs"

text \<open>
  What the caller receives. Once every worker has left its loop, \<open>executeBatch\<close> is over and
  the function runs \<open>return results\<close>: its promise is fulfilled with the results object.
  Till then it is pending (\<open>None\<close>). No path of the function rejects the promise.
\<close>

definition returned :: "batch_state \<Rightarrow> IngestionResult settled option" where
  "returned s = (if list_all (\<lambda>w. w = Done) (workers s) then Some (Fulfilled (results s)) else None)"

subsection \<open>Notions used to state the properties\<close>

text \<open>The addresses the waiting workers wait for.\<close>

fun waitingUrls :: "worker list \<Rightarrow> string list" where
  "waitingUrls [] = []"
| "waitingUrls (Waiting u # ws) = u # waitingUrls ws"
| "waitingUrls (AtLoopHead # ws) = waitingUrls ws"
| "waitingUrls (Done # ws) = waitingUrls ws"

text \<open>An address passes the validation when the \<open>URL\<close> constructor accepts its trimmed
  text with protocol \<open>http:\<close> or \<open>https:\<close>; \<open>rejectionText\<close> is the error string pushed
  for one that does not.\<close>

definition acceptable :: "(string \<Rightarrow> string option) \<Rightarrow> string \<Rightarrow> bool" where
  "acceptable urlProtocol url =
     (case urlProtocol (trim url) of None \<Rightarrow> False | Some protocol \<Rightarrow> protocol \<in> set [''http:'', ''https:''])"

definition rejectionText :: "(string \<Rightarrow> string option) \<Rightarrow> string \<Rightarrow> string" where
  "rejectionText urlProtocol url =
     url @ '': '' @ (case urlProtocol (trim url) of None \<Rightarrow> msgBadUrl | Some protocol \<Rightarrow> msgBadProtocol)"

text \<open>Events that end a run early: an abort, and a race rejected with the cancellation
  message. Events that commit a feed: a race fulfilled with a feed that has entries.\<close>

fun disturbs :: "event \<Rightarrow> bool" where
  "disturbs Abort = True"
| "disturbs (Settle w (Rejected m) newId stamp now) = (m = msgCancelled)"
| "disturbs (Settle w (Fulfilled parsed) newId stamp now) = False"

fun commits :: "event \<Rightarrow> bool" where
  "commits Abort = False"
| "commits (Settle w (Rejected m) newId stamp now) = False"
| "commits (Settle w (Fulfilled parsed) newId stamp now) = (pf_items parsed \<noteq> [])"

text \<open>
  Invariants of a run. \<open>counting\<close>: the claimed addresses are a prefix of the candidates,
  each of them is completed or in flight, and the progress callback has received
  \<open>1, 2, \<dots>\<close> with the number of candidates as total, once for each completion as long
  as the call is not aborted.
\<close>

definition counting :: "batch_state \<Rightarrow> bool" where
  "counting s \<longleftrightarrow>
     index s \<le> length (newUrls s)
     \<and> calls s = take (index s) (newUrls s)
     \<and> completed s + length (waitingUrls (workers s)) = index s
     \<and> progress s = map (\<lambda>k. (k, length (newUrls s))) [1..<Suc (length (progress s))]
     \<and> length (progress s) \<le> completed s
     \<and> (\<not> aborted s \<longrightarrow> length (progress s) = completed s)"

text \<open>\<open>committing fs\<close>: the feeds are the feeds \<open>fs\<close> of the start with one new feed in front
  for each success, and the claimed addresses are those of the new feeds, those in flight and
  those that were completed without a commit.\<close>

definition committing :: "RSSFeed list \<Rightarrow> batch_state \<Rightarrow> bool" where
  "committing fs s \<longleftrightarrow>
     (\<exists>new others.
        feeds (app s) = new @ fs
        \<and> success (results s) = length new
        \<and> mset (map feed_url new) + mset (waitingUrls (workers s)) + mset others
            = mset (take (index s) (newUrls s)))"

text \<open>\<open>accounting res\<close>: against the results \<open>res\<close> of the filter, the skipped count is
  unchanged, and every later error string and failure belongs to a claimed address.\<close>

definition accounting :: "IngestionResult \<Rightarrow> batch_state \<Rightarrow> bool" where
  "accounting res s \<longleftrightarrow>
     skipped (results s) = skipped res
     \<and> (\<exists>later.
          errors (results s) = errors res @ later
          \<and> failed (results s) = failed res + length later
          \<and> (\<forall>e\<in>set later. \<exists>c\<in>set (calls s). \<exists>m. e = c @ '': '' @ m)
          \<and> success (results s) + length later \<le> completed s)"

text \<open>\<open>undisturbed\<close>: the call is not aborted and a worker has left its loop only when no
  candidate was left.\<close>

definition undisturbed :: "batch_state \<Rightarrow> bool" where
  "undisturbed s \<longleftrightarrow>
     \<not> aborted s
     \<and> (\<forall>w\<in>set (workers s). w = Done \<longrightarrow> index s = length (newUrls s))
     \<and> (workers s = [] \<longrightarrow> newUrls s = [])"

definition batch_inv :: "IngestionResult \<Rightarrow> RSSFeed list \<Rightarrow> batch_state \<Rightarrow> bool" where
  "batch_inv res fs s \<longleftrightarrow> counting s \<and> committing fs s \<and> accounting res s"

section \<open>Example data\<close>

definition emptyParsedItem :: ParsedItem where
  "emptyParsedItem = \<lparr> p_title = None, p_link = None, p_content = None, p_contentSnippet = None,
     p_pubDate = None, p_author = None, p_categories = None, p_guid = None \<rparr>"

definition sampleFeed :: "string \<Rightarrow> string \<Rightarrow> RSSFeed" where
  "sampleFeed fid u = \<lparr> feed_id = fid, feed_title = ''t'', feed_url = u, feed_description = None,
     feed_lastUpdated = None \<rparr>"

definition sampleItem :: "string \<Rightarrow> string \<Rightarrow> string \<Rightarrow> bool \<Rightarrow> bool \<Rightarrow> RSSItem" where
  "sampleItem fid l c r s = \<lparr> item_id = fid @ ''-0-0'', feedId = fid, item_title = ''old'', item_link = l,
     item_description = Some c, item_content = Some c, item_pubDate = None, item_author = None,
     item_categories = None, isRead = r, isStarred = s \<rparr>"

definition sampleParsed :: "ParsedItem list \<Rightarrow> ParsedFeed" where
  "sampleParsed ps = \<lparr> pf_title = ''t'', pf_description = None, pf_items = ps \<rparr>"

text \<open>A stand-in for \<open>encodeURIComponent\<close> that agrees with it on the addresses of the
  examples. A network on which every request fails, and one on which the first proxy answers
  for two of the suffixed addresses of \<open>http://site.example\<close>; a document parser that knows
  the two answers.\<close>

definition sampleEncode :: "string \<Rightarrow> string" where
  "sampleEncode u =
     concat (map (\<lambda>c. if c = CHR '':'' then ''%3A'' else if c = CHR ''/'' then ''%2F''
                       else if c = CHR ''?'' then ''%3F'' else if c = CHR ''='' then ''%3D'' else [c]) u)"

definition deadNetwork :: network where
  "deadNetwork u = FetchThrows ''ECONNRESET''"

definition sampleNetwork :: network where
  "sampleNetwork u =
     (if u = ''https://api.allorigins.win/raw?url=http%3A%2F%2Fsite.example%2Frss''
        then Response True (Fulfilled ''A'')
      else if u = ''https://api.allorigins.win/raw?url=http%3A%2F%2Fsite.example%2Ffeed.xml''
        then Response True (Fulfilled ''B'')
      else FetchThrows ''Failed to fetch'')"

definition sampleParseDoc :: "string \<Rightarrow> ParsedFeed option" where
  "sampleParseDoc x =
     (if x = ''A'' then Some (sampleParsed [emptyParsedItem\<lparr> p_title := Some ''from rss'' \<rparr>])
      else if x = ''B'' then Some (sampleParsed [emptyParsedItem\<lparr> p_title := Some ''from feed.xml'' \<rparr>])
      else None)"

text \<open>A stand-in for the \<open>URL\<close> constructor that agrees with it on the addresses of the
  examples: the protocol of an address that starts with a known scheme and two slashes, and a
  failure for a text without scheme.\<close>

definition sampleUrlProtocol :: "string \<Rightarrow> string option" where
  "sampleUrlProtocol u =
     (if prefix ''http://'' u then Some ''http:''
      else if prefix ''https://'' u then Some ''https:''
      else if prefix ''ftp://'' u then Some ''ftp:''
      else None)"

text \<open>A state without feeds, a race that settles with a feed of one entry, and the ten
  addresses of a batch.\<close>

definition emptyState :: app_state where
  "emptyState = \<lparr> feeds = [], items = [] \<rparr>"

definition oneEntryFeed :: "ParsedFeed settled" where
  "oneEntryFeed = Fulfilled (sampleParsed [emptyParsedItem\<lparr> p_link := Some ''http://site.example/1'' \<rparr>])"

definition tenUrls :: "string list" where
  "tenUrls = [''http://s0.example/feed'', ''http://s1.example/feed'', ''http://s2.example/feed'',
     ''http://s3.example/feed'', ''http://s4.example/feed'', ''http://s5.example/feed'',
     ''http://s6.example/feed'', ''http://s7.example/feed'', ''http://s8.example/feed'',
     ''http://s9.example/feed'']"

section \<open>Properties of the refresh merge\<close>

lemma length_convertToRSSItems: "length (convertToRSSItems ps fid now) = length ps"
  by (simp add: convertToRSSItems_def)

lemma nth_convertToRSSItems:
  "k < length ps \<Longrightarrow> convertToRSSItems ps fid now ! k = convertItem fid now k (ps ! k)"
  by (simp add: convertToRSSItems_def nth_enumerate_eq)

lemma feedId_convertItem: "feedId (convertItem fid now k p) = fid"
  by (simp add: convertItem_def)

lemma flags_convertItem: "\<not> isRead (convertItem fid now k p) \<and> \<not> isStarred (convertItem fid now k p)"
  by (simp add: convertItem_def)

lemma feedId_converted: "x \<in> set (convertToRSSItems ps fid now) \<Longrightarrow> feedId x = fid"
  by (auto simp: convertToRSSItems_def feedId_convertItem)

lemma mergeItem_fields:
  "item_id (mergeItem prev n) = item_id n \<and> feedId (mergeItem prev n) = feedId n
   \<and> item_title (mergeItem prev n) = item_title n \<and> item_link (mergeItem prev n) = item_link n
   \<and> item_description (mergeItem prev n) = item_description n
   \<and> item_content (mergeItem prev n) = item_content n \<and> item_pubDate (mergeItem prev n) = item_pubDate n
   \<and> item_author (mergeItem prev n) = item_author n
   \<and> item_categories (mergeItem prev n) = item_categories n"
  by (simp add: mergeItem_def split: option.splits)

lemma find_first:
  "j < length xs \<Longrightarrow> P (xs ! j) \<Longrightarrow> \<forall>j'<j. \<not> P (xs ! j') \<Longrightarrow> List.find P xs = Some (xs ! j)"
  by (auto simp: find_Some_iff)

lemma mergeItem_first:
  assumes "j < length prev" "item_link (prev ! j) = item_link n"
    "\<forall>j'<j. item_link (prev ! j') \<noteq> item_link n"
  shows "isRead (mergeItem prev n) = isRead (prev ! j) \<and> isStarred (mergeItem prev n) = isStarred (prev ! j)"
proof -
  have "List.find (\<lambda>i. item_link i = item_link n) prev = Some (prev ! j)"
    using assms by (intro find_first) auto
  then show ?thesis by (simp add: mergeItem_def)
qed

lemma mergeItem_none:
  assumes "\<forall>e\<in>set prev. item_link e \<noteq> item_link n"
  shows "mergeItem prev n = n"
proof -
  have "List.find (\<lambda>i. item_link i = item_link n) prev = None"
    using assms by (simp add: find_None_iff)
  then show ?thesis by (simp add: mergeItem_def)
qed

lemma mergeItem_match:
  assumes "e \<in> set prev" "item_link e = item_link n"
  shows "\<exists>x\<in>set prev. item_link x = item_link n
           \<and> isRead (mergeItem prev n) = isRead x \<and> isStarred (mergeItem prev n) = isStarred x"
proof (cases "List.find (\<lambda>i. item_link i = item_link n) prev")
  case None
  with assms show ?thesis by (auto simp: find_None_iff)
next
  case (Some x)
  then have "x \<in> set prev" "item_link x = item_link n"
    by (auto simp: find_Some_iff)
  with Some show ?thesis by (auto simp: mergeItem_def)
qed

lemma items_refreshFeed:
  "List.find (\<lambda>f. feed_id f = fid) (feeds st) = Some feed \<Longrightarrow>
   items (refreshFeed st fid (Fulfilled parsed) now stamp)
     = map (mergeItem (items st)) (convertToRSSItems (pf_items parsed) fid now)
       @ filter (\<lambda>i. feedId i \<noteq> fid) (items st)"
  by (simp add: refreshFeed_def mergeItems_def Let_def)

lemma find_filter_same:
  "(\<And>x. x \<in> set xs \<Longrightarrow> P x \<Longrightarrow> Q x) \<Longrightarrow> List.find P (filter Q xs) = List.find P xs"
  by (induction xs) auto

lemma find_entriesOf:
  "(\<And>x. x \<in> set xs \<Longrightarrow> P x \<Longrightarrow> feedId x = fid) \<Longrightarrow> List.find P (entriesOf fid xs) = List.find P xs"
  unfolding entriesOf_def by (rule find_filter_same)

lemma mergeItem_own:
  assumes "\<forall>e\<in>set prev. feedId e \<noteq> fid \<longrightarrow> item_link e \<noteq> item_link n"
  shows "mergeItem prev n = mergeItem (entriesOf fid prev) n"
proof -
  have "List.find (\<lambda>i. item_link i = item_link n) (entriesOf fid prev)
        = List.find (\<lambda>i. item_link i = item_link n) prev"
    using assms by (intro find_entriesOf) auto
  then show ?thesis by (simp add: mergeItem_def)
qed

text \<open>
  Claim C1, amended. In a refresh of feed \<open>fid\<close> whose parse succeeded, let \<open>n\<close> be the \<open>k\<close>-th
  parsed entry, with a link that no stored entry of another feed has. The \<open>k\<close>-th entry of the
  new collection has the title, content, date, author, categories and link of \<open>n\<close>. When
  stored entries of the feed have the link of \<open>n\<close>, its read and starred flags are those of the
  first of them in stored order, and so of each of them when they all carry the same flags (as
  when there is only one). When no stored entry of the feed has this link, both flags are
  false.
\<close>

theorem refresh_merge_flags:
  assumes found: "List.find (\<lambda>f. feed_id f = fid) (feeds st) = Some feed"
      and k: "k < length (pf_items parsed)"
      and own: "\<forall>e\<in>set (items st).
                  feedId e \<noteq> fid \<longrightarrow> item_link e \<noteq> item_link (convertItem fid now k (pf_items parsed ! k))"
  shows "let n = convertItem fid now k (pf_items parsed ! k);
             m = items (refreshFeed st fid (Fulfilled parsed) now stamp) ! k;
             stored = entriesOf fid (items st)
         in item_title m = item_title n \<and> item_content m = item_content n
            \<and> item_pubDate m = item_pubDate n \<and> item_author m = item_author n
            \<and> item_categories m = item_categories n \<and> item_link m = item_link n
            \<and> (\<forall>j<length stored.
                  item_link (stored ! j) = item_link n
                  \<and> (\<forall>j'<j. item_link (stored ! j') \<noteq> item_link n)
                  \<longrightarrow> isRead m = isRead (stored ! j) \<and> isStarred m = isStarred (stored ! j))
            \<and> (\<forall>e\<in>set stored.
                  item_link e = item_link n
                  \<and> (\<forall>e'\<in>set stored. item_link e' = item_link n
                         \<longrightarrow> isRead e' = isRead e \<and> isStarred e' = isStarred e)
                  \<longrightarrow> isRead m = isRead e \<and> isStarred m = isStarred e)
            \<and> ((\<forall>e\<in>set stored. item_link e \<noteq> item_link n)
                  \<longrightarrow> \<not> isRead m \<and> \<not> isStarred m)"
proof -
  let ?n = "convertItem fid now k (pf_items parsed ! k)"
  let ?S = "entriesOf fid (items st)"
  have "items (refreshFeed st fid (Fulfilled parsed) now stamp) ! k = mergeItem (items st) ?n"
    using k by (simp add: items_refreshFeed [OF found] nth_append length_convertToRSSItems
        nth_convertToRSSItems)
  then have m: "items (refreshFeed st fid (Fulfilled parsed) now stamp) ! k = mergeItem ?S ?n"
    using mergeItem_own [OF own] by simp
  have agree: "isRead (mergeItem ?S ?n) = isRead e \<and> isStarred (mergeItem ?S ?n) = isStarred e"
    if "e \<in> set ?S" "item_link e = item_link ?n"
       "\<forall>e'\<in>set ?S. item_link e' = item_link ?n
           \<longrightarrow> isRead e' = isRead e \<and> isStarred e' = isStarred e" for e
    using mergeItem_match [OF that(1,2)] that(3) by auto
  have fields: "item_title (mergeItem ?S ?n) = item_title ?n"
    "item_content (mergeItem ?S ?n) = item_content ?n"
    "item_pubDate (mergeItem ?S ?n) = item_pubDate ?n"
    "item_author (mergeItem ?S ?n) = item_author ?n"
    "item_categories (mergeItem ?S ?n) = item_categories ?n"
    "item_link (mergeItem ?S ?n) = item_link ?n"
    using mergeItem_fields [of ?S ?n] by simp_all
  have first: "\<forall>j<length ?S.
                  item_link (?S ! j) = item_link ?n
                  \<and> (\<forall>j'<j. item_link (?S ! j') \<noteq> item_link ?n)
                  \<longrightarrow> isRead (mergeItem ?S ?n) = isRead (?S ! j)
                      \<and> isStarred (mergeItem ?S ?n) = isStarred (?S ! j)"
    using mergeItem_first [of _ ?S ?n] by blast
  have none: "(\<forall>e\<in>set ?S. item_link e \<noteq> item_link ?n)
                \<longrightarrow> \<not> isRead (mergeItem ?S ?n) \<and> \<not> isStarred (mergeItem ?S ?n)"
    using mergeItem_none [of ?S ?n] flags_convertItem [of fid now k "pf_items parsed ! k"]
    by simp
  show ?thesis
    unfolding Let_def m
    using fields first agree none by (intro conjI) blast+
qed

lemmas refresh_eval = refreshFeed_def mergeItems_def mergeItem_def convertToRSSItems_def convertItem_def
  sampleFeed_def sampleItem_def sampleParsed_def emptyParsedItem_def entriesOf_def entryKey_def

text \<open>
  Claim C1 as stated fails where two stored entries of the feed have the same link. Two stored
  entries without a link both have the empty link; the first is read and starred, the second
  is not. A parsed entry without a link has the link of the second stored entry, and its
  merge is read and starred: it has the flags of the first stored entry, not of this one.
\<close>

theorem refresh_merge_flags_counterexample:
  "let ps = [emptyParsedItem\<lparr> p_content := Some ''a'' \<rparr>, emptyParsedItem\<lparr> p_content := Some ''b'' \<rparr>];
       st = \<lparr> feeds = [sampleFeed ''F'' ''http://f.example/feed''],
               items = [(convertItem ''F'' (\<lambda>i. 1) 0 (ps ! 0))\<lparr> isRead := True, isStarred := True \<rparr>,
                        convertItem ''F'' (\<lambda>i. 1) 1 (ps ! 1)] \<rparr>;
       st' = refreshFeed st ''F'' (Fulfilled (sampleParsed ps)) (\<lambda>i. 2) 2;
       n = convertItem ''F'' (\<lambda>i. 2) 0 (ps ! 0);
       e = items st ! 1;
       m = items st' ! 0
   in e \<in> set (items st) \<and> feedId e = ''F'' \<and> item_link n = item_link e
      \<and> item_content m = item_content n
      \<and> isRead m \<and> isStarred m \<and> \<not> isRead e \<and> \<not> isStarred e"
  by (simp add: Let_def refresh_eval)

text \<open>The amended theorem at a stored entry that is read and starred, refreshed with a new
  title and text under the same link, and at a second parsed entry whose link is new, beside
  an entry of another feed with a link of its own.\<close>

theorem refresh_merge_flags_witness:
  "let st = \<lparr> feeds = [sampleFeed ''f'' ''http://a.example/feed''],
               items = [sampleItem ''g'' ''http://g.example/1'' ''other'' False True,
                        sampleItem ''f'' ''http://a.example/1'' ''old text'' True True] \<rparr>;
       parsed = sampleParsed [emptyParsedItem\<lparr> p_title := Some ''new'', p_link := Some ''http://a.example/1'',
                                 p_content := Some ''new text'' \<rparr>,
                              emptyParsedItem\<lparr> p_link := Some ''http://a.example/2'' \<rparr>];
       st' = refreshFeed st ''f'' (Fulfilled parsed) (\<lambda>i. 7) 7
   in item_title (items st' ! 0) = ''new'' \<and> item_content (items st' ! 0) = Some ''new text''
      \<and> isRead (items st' ! 0) \<and> isStarred (items st' ! 0)
      \<and> \<not> isRead (items st' ! 1) \<and> \<not> isStarred (items st' ! 1)"
proof -
  let ?st = "\<lparr> feeds = [sampleFeed ''f'' ''http://a.example/feed''],
               items = [sampleItem ''g'' ''http://g.example/1'' ''other'' False True,
                        sampleItem ''f'' ''http://a.example/1'' ''old text'' True True] \<rparr>"
  let ?p = "sampleParsed [emptyParsedItem\<lparr> p_title := Some ''new'', p_link := Some ''http://a.example/1'',
                                 p_content := Some ''new text'' \<rparr>,
                              emptyParsedItem\<lparr> p_link := Some ''http://a.example/2'' \<rparr>]"
  let ?st' = "refreshFeed ?st ''f'' (Fulfilled ?p) (\<lambda>i. 7) 7"
  let ?old = "sampleItem ''f'' ''http://a.example/1'' ''old text'' True True"
  have found: "List.find (\<lambda>f. feed_id f = ''f'') (feeds ?st) = Some (sampleFeed ''f'' ''http://a.example/feed'')"
    by (simp add: sampleFeed_def)
  have k: "0 < length (pf_items ?p)" "1 < length (pf_items ?p)"
    by (simp_all add: sampleParsed_def)
  have n0: "item_link (convertItem ''f'' (\<lambda>i. 7) 0 (pf_items ?p ! 0)) = ''http://a.example/1''"
    "item_title (convertItem ''f'' (\<lambda>i. 7) 0 (pf_items ?p ! 0)) = ''new''"
    "item_content (convertItem ''f'' (\<lambda>i. 7) 0 (pf_items ?p ! 0)) = Some ''new text''"
    by (simp_all add: convertItem_def sampleParsed_def emptyParsedItem_def)
  have n1: "item_link (convertItem ''f'' (\<lambda>i. 7) 1 (pf_items ?p ! 1)) = ''http://a.example/2''"
    by (simp add: convertItem_def sampleParsed_def emptyParsedItem_def)
  have own0: "\<forall>e\<in>set (items ?st).
      feedId e \<noteq> ''f'' \<longrightarrow> item_link e \<noteq> item_link (convertItem ''f'' (\<lambda>i. 7) 0 (pf_items ?p ! 0))"
    unfolding n0 by (simp add: sampleItem_def)
  have own1: "\<forall>e\<in>set (items ?st).
      feedId e \<noteq> ''f'' \<longrightarrow> item_link e \<noteq> item_link (convertItem ''f'' (\<lambda>i. 7) 1 (pf_items ?p ! 1))"
    unfolding n1 by (simp add: sampleItem_def)
  have S: "entriesOf ''f'' (items ?st) = [?old]"
    by (simp add: entriesOf_def sampleItem_def)
  have old: "item_link ?old = ''http://a.example/1''" "isRead ?old" "isStarred ?old"
    by (simp_all add: sampleItem_def)
  note t0 = refresh_merge_flags [OF found k(1) own0, of 7, unfolded Let_def S n0]
  note t1 = refresh_merge_flags [OF found k(2) own1, of 7, unfolded Let_def S n1]
  have a: "item_title (items ?st' ! 0) = ''new''" "item_content (items ?st' ! 0) = Some ''new text''"
    using t0 by blast+
  have "\<forall>e\<in>set [?old]. item_link e = ''http://a.example/1''
           \<and> (\<forall>e'\<in>set [?old]. item_link e' = ''http://a.example/1''
                 \<longrightarrow> isRead e' = isRead e \<and> isStarred e' = isStarred e)
           \<longrightarrow> isRead (items ?st' ! 0) = isRead e \<and> isStarred (items ?st' ! 0) = isStarred e"
    using t0 by blast
  then have b: "isRead (items ?st' ! 0)" "isStarred (items ?st' ! 0)"
    using old by simp_all
  have "(\<forall>e\<in>set [?old]. item_link e \<noteq> ''http://a.example/2'')
          \<longrightarrow> \<not> isRead (items ?st' ! 1) \<and> \<not> isStarred (items ?st' ! 1)"
    using t1 by blast
  then have c: "\<not> isRead (items ?st' ! 1)" "\<not> isStarred (items ?st' ! 1)"
    using old by simp_all
  show ?thesis
    unfolding Let_def using a b c by blast
qed

text \<open>
  Claim C4 (the lookup of a refresh of feed \<open>F\<close> considers only the stored entries of \<open>F\<close>).
  The code searches the whole stored list. Here feed \<open>F\<close> holds a read and starred entry, and
  feed \<open>A\<close> holds an unread, unstarred entry with the same link that comes first in the stored
  list. After the refresh of \<open>F\<close>, the entry of \<open>F\<close> is unread and unstarred: its flags were
  taken from the entry of feed \<open>A\<close>, and the flags the user gave it are lost.
\<close>

theorem refresh_lookup_crosses_feeds:
  "let st = \<lparr> feeds = [sampleFeed ''F'' ''http://f.example/feed'', sampleFeed ''A'' ''http://a.example/feed''],
               items = [sampleItem ''A'' ''http://x.example/post'' ''text'' False False,
                        sampleItem ''F'' ''http://x.example/post'' ''text'' True True] \<rparr>;
       parsed = sampleParsed [emptyParsedItem\<lparr> p_link := Some ''http://x.example/post'',
                                 p_content := Some ''text'' \<rparr>];
       st' = refreshFeed st ''F'' (Fulfilled parsed) (\<lambda>i. 7) 7
   in map (\<lambda>i. (isRead i, isStarred i)) (entriesOf ''F'' (items st)) = [(True, True)]
      \<and> map (\<lambda>i. (isRead i, isStarred i)) (entriesOf ''F'' (items st')) = [(False, False)]
      \<and> entriesOf ''A'' (items st') = entriesOf ''A'' (items st)"
  by (simp add: Let_def refresh_eval)

lemma find_distinct_nth:
  assumes "distinct (map f xs)" "k < length xs"
  shows "List.find (\<lambda>x. f x = f (xs ! k)) xs = Some (xs ! k)"
proof (rule find_first)
  show "k < length xs" by fact
  show "f (xs ! k) = f (xs ! k)" by simp
  show "\<forall>j'<k. f (xs ! j') \<noteq> f (xs ! k)"
  proof (intro allI impI)
    fix j' assume "j' < k"
    then have "(map f xs ! j' = map f xs ! k) = (j' = k)"
      using assms by (intro nth_eq_iff_index_eq) auto
    then have "map f xs ! j' \<noteq> map f xs ! k"
      using \<open>j' < k\<close> by blast
    then show "f (xs ! j') \<noteq> f (xs ! k)"
      using \<open>j' < k\<close> assms(2) by simp
  qed
qed

lemma link_content_convertItem:
  "item_link (convertItem fid now k p) = item_link (convertItem fid now0 k p)
   \<and> item_content (convertItem fid now k p) = item_content (convertItem fid now0 k p)"
  by (simp add: convertItem_def)

lemma link_content_converted:
  "map (\<lambda>i. (item_link i, item_content i)) (convertToRSSItems ps fid now)
   = map (\<lambda>i. (item_link i, item_content i)) (convertToRSSItems ps fid now0)"
  by (rule nth_equalityI)
     (simp_all add: length_convertToRSSItems nth_convertToRSSItems
        link_content_convertItem [of fid now _ _ now0])

lemma entriesOf_merged:
  assumes "\<forall>x\<in>set ns. feedId x = fid"
  shows "entriesOf fid (map (mergeItem prev) ns @ filter (\<lambda>i. feedId i \<noteq> fid) prev) = map (mergeItem prev) ns"
proof -
  have "filter (\<lambda>i. feedId i = fid) (map (mergeItem prev) ns) = map (mergeItem prev) ns"
    using assms by (auto simp: filter_id_conv mergeItem_fields)
  moreover have "filter (\<lambda>i. feedId i = fid) (filter (\<lambda>i. feedId i \<noteq> fid) prev) = []"
    by (simp add: filter_empty_conv)
  ultimately show ?thesis by (simp add: entriesOf_def)
qed

lemma others_merged:
  assumes "\<forall>x\<in>set ns. feedId x = fid"
  shows "filter (\<lambda>i. feedId i \<noteq> fid) (map (mergeItem prev) ns @ filter (\<lambda>i. feedId i \<noteq> fid) prev)
         = filter (\<lambda>i. feedId i \<noteq> fid) prev"
proof -
  have "filter (\<lambda>i. feedId i \<noteq> fid) (map (mergeItem prev) ns) = []"
    using assms by (auto simp: filter_empty_conv mergeItem_fields)
  then show ?thesis by simp
qed

text \<open>
  Claim C5, amended. Let the stored entries of feed \<open>fid\<close> have the links and contents of a
  conversion of the parsed entries (so the parse is the one that produced them), let these links
  be pairwise distinct, and let no stored entry of another feed have the link of a stored entry of
  \<open>fid\<close>. Then the refresh leaves the entries of \<open>fid\<close> as they were, compared in order by link,
  content, read flag and starred flag, and leaves the entries of the other feeds unchanged.
\<close>

theorem refresh_idempotent:
  assumes found: "List.find (\<lambda>f. feed_id f = fid) (feeds st) = Some feed"
      and same: "map (\<lambda>i. (item_link i, item_content i)) (entriesOf fid (items st))
                 = map (\<lambda>i. (item_link i, item_content i)) (convertToRSSItems (pf_items parsed) fid now0)"
      and dist: "distinct (map item_link (entriesOf fid (items st)))"
      and others: "\<forall>i\<in>set (items st). \<forall>j\<in>set (items st).
                     feedId i \<noteq> fid \<and> feedId j = fid \<longrightarrow> item_link i \<noteq> item_link j"
  shows "map entryKey (entriesOf fid (items (refreshFeed st fid (Fulfilled parsed) now stamp)))
           = map entryKey (entriesOf fid (items st))
         \<and> filter (\<lambda>i. feedId i \<noteq> fid) (items (refreshFeed st fid (Fulfilled parsed) now stamp))
           = filter (\<lambda>i. feedId i \<noteq> fid) (items st)"
proof -
  let ?prev = "items st"
  let ?S = "entriesOf fid ?prev"
  let ?N = "convertToRSSItems (pf_items parsed) fid now"
  have fidN: "\<forall>x\<in>set ?N. feedId x = fid"
    by (auto dest: feedId_converted)
  have lc: "map (\<lambda>i. (item_link i, item_content i)) ?N = map (\<lambda>i. (item_link i, item_content i)) ?S"
    using same link_content_converted [of "pf_items parsed" fid now now0] by simp
  have len: "length ?N = length ?S"
    using arg_cong [OF lc, of length] by simp
  have nth_lc: "item_link (?N ! k) = item_link (?S ! k) \<and> item_content (?N ! k) = item_content (?S ! k)"
    if "k < length ?S" for k
    using arg_cong [OF lc, of "\<lambda>xs. xs ! k"] that len by simp
  have key: "entryKey (mergeItem ?prev (?N ! k)) = entryKey (?S ! k)" if k: "k < length ?S" for k
  proof -
    let ?P = "\<lambda>i. item_link i = item_link (?S ! k)"
    have Sk: "?S ! k \<in> set ?prev" "feedId (?S ! k) = fid"
      using nth_mem [OF k] by (auto simp: entriesOf_def)
    have "List.find ?P ?S = List.find ?P ?prev"
    proof (rule find_entriesOf)
      fix x assume "x \<in> set ?prev" "item_link x = item_link (?S ! k)"
      then show "feedId x = fid" using others Sk by metis
    qed
    moreover have "List.find ?P ?S = Some (?S ! k)"
      using find_distinct_nth [OF dist k] .
    ultimately have "List.find (\<lambda>i. item_link i = item_link (?N ! k)) ?prev = Some (?S ! k)"
      using nth_lc [OF k] by simp
    then show ?thesis
      using nth_lc [OF k] by (simp add: mergeItem_def entryKey_def)
  qed
  have "map entryKey (map (mergeItem ?prev) ?N) = map entryKey ?S"
    by (rule nth_equalityI) (simp_all add: len key)
  then show ?thesis
    unfolding items_refreshFeed [OF found] entriesOf_merged [OF fidN] others_merged [OF fidN]
    by simp
qed

text \<open>
  Claim C5 as stated fails where two entries of the feed have the same link: two parsed entries
  without a link both get the empty link, the first stored one is read, and the refresh of the
  unchanged feed marks the second one read as well.
\<close>

theorem refresh_idempotent_counterexample:
  "let ps = [emptyParsedItem\<lparr> p_content := Some ''a'' \<rparr>, emptyParsedItem\<lparr> p_content := Some ''b'' \<rparr>];
       st = \<lparr> feeds = [sampleFeed ''F'' ''http://f.example/feed''],
               items = [(convertItem ''F'' (\<lambda>i. 1) 0 (ps ! 0))\<lparr> isRead := True \<rparr>,
                        convertItem ''F'' (\<lambda>i. 1) 1 (ps ! 1)] \<rparr>;
       st' = refreshFeed st ''F'' (Fulfilled (sampleParsed ps)) (\<lambda>i. 2) 2
   in map (\<lambda>i. (item_link i, item_content i, item_title i)) (items st)
        = map (\<lambda>i. (item_link i, item_content i, item_title i)) (convertToRSSItems ps ''F'' (\<lambda>i. 1))
      \<and> map entryKey (entriesOf ''F'' (items st)) = [('''', Some ''a'', True, False), ('''', Some ''b'', False, False)]
      \<and> map entryKey (entriesOf ''F'' (items st')) = [('''', Some ''a'', True, False), ('''', Some ''b'', True, False)]
      \<and> set (map entryKey (entriesOf ''F'' (items st'))) \<noteq> set (map entryKey (entriesOf ''F'' (items st)))"
proof -
  let ?ps = "[emptyParsedItem\<lparr> p_content := Some ''a'' \<rparr>, emptyParsedItem\<lparr> p_content := Some ''b'' \<rparr>]"
  let ?st = "\<lparr> feeds = [sampleFeed ''F'' ''http://f.example/feed''],
               items = [(convertItem ''F'' (\<lambda>i. 1) 0 (?ps ! 0))\<lparr> isRead := True \<rparr>,
                        convertItem ''F'' (\<lambda>i. 1) 1 (?ps ! 1)] \<rparr>"
  let ?st' = "refreshFeed ?st ''F'' (Fulfilled (sampleParsed ?ps)) (\<lambda>i. 2) 2"
  have same: "map (\<lambda>i. (item_link i, item_content i, item_title i)) (items ?st)
        = map (\<lambda>i. (item_link i, item_content i, item_title i)) (convertToRSSItems ?ps ''F'' (\<lambda>i. 1))"
    by (simp add: refresh_eval)
  have pre: "map entryKey (entriesOf ''F'' (items ?st))
      = [('''', Some ''a'', True, False), ('''', Some ''b'', False, False)]"
    by (simp add: refresh_eval)
  have post: "map entryKey (entriesOf ''F'' (items ?st'))
      = [('''', Some ''a'', True, False), ('''', Some ''b'', True, False)]"
    by (simp add: refresh_eval)
  have "set (map entryKey (entriesOf ''F'' (items ?st'))) \<noteq> set (map entryKey (entriesOf ''F'' (items ?st)))"
    unfolding pre post by (simp add: doubleton_eq_iff)
  with same pre post show ?thesis
    unfolding Let_def by blast
qed

text \<open>The amended theorem at a feed with two entries of distinct links, the first one read,
  beside an entry of another feed.\<close>

theorem refresh_idempotent_witness:
  "let ps = [emptyParsedItem\<lparr> p_link := Some ''http://f.example/1'', p_content := Some ''a'' \<rparr>,
             emptyParsedItem\<lparr> p_link := Some ''http://f.example/2'', p_content := Some ''b'' \<rparr>];
       st = \<lparr> feeds = [sampleFeed ''F'' ''http://f.example/feed''],
               items = [sampleItem ''G'' ''http://g.example/1'' ''c'' False True,
                        (convertItem ''F'' (\<lambda>i. 1) 0 (ps ! 0))\<lparr> isRead := True \<rparr>,
                        convertItem ''F'' (\<lambda>i. 1) 1 (ps ! 1)] \<rparr>;
       st' = refreshFeed st ''F'' (Fulfilled (sampleParsed ps)) (\<lambda>i. 2) 2
   in map entryKey (entriesOf ''F'' (items st'))
        = [(''http://f.example/1'', Some ''a'', True, False), (''http://f.example/2'', Some ''b'', False, False)]
      \<and> filter (\<lambda>i. feedId i \<noteq> ''F'') (items st') = [sampleItem ''G'' ''http://g.example/1'' ''c'' False True]"
  using refresh_idempotent [of "''F''"
     "\<lparr> feeds = [sampleFeed ''F'' ''http://f.example/feed''],
               items = [sampleItem ''G'' ''http://g.example/1'' ''c'' False True,
                        (convertItem ''F'' (\<lambda>i. 1) 0 (emptyParsedItem\<lparr> p_link := Some ''http://f.example/1'', p_content := Some ''a'' \<rparr>))\<lparr> isRead := True \<rparr>,
                        convertItem ''F'' (\<lambda>i. 1) 1 (emptyParsedItem\<lparr> p_link := Some ''http://f.example/2'', p_content := Some ''b'' \<rparr>)] \<rparr>"
     "sampleFeed ''F'' ''http://f.example/feed''"
     "sampleParsed [emptyParsedItem\<lparr> p_link := Some ''http://f.example/1'', p_content := Some ''a'' \<rparr>,
             emptyParsedItem\<lparr> p_link := Some ''http://f.example/2'', p_content := Some ''b'' \<rparr>]"
     "\<lambda>i. 1" "\<lambda>i. 2" 2]
  by (simp add: Let_def convertToRSSItems_def convertItem_def sampleFeed_def sampleItem_def
      sampleParsed_def emptyParsedItem_def entriesOf_def entryKey_def)

section \<open>Properties of the resolver\<close>

lemma those_map_Some: "those (map Some vs) = Some vs"
  by (induction vs) auto

lemma foldl_fill:
  "length a = length vs \<Longrightarrow>
   foldl (\<lambda>arr i. if i < length vs then arr[i := Some (vs ! i)] else arr) a order
     = map (\<lambda>i. if i \<in> set order then Some (vs ! i) else a ! i) [0..<length vs]"
proof (induction order arbitrary: a)
  case Nil
  have "map ((!) a) [0..<length a] = a" by (rule map_nth)
  then show ?case using Nil by simp
next
  case (Cons i order)
  let ?a' = "if i < length vs then a[i := Some (vs ! i)] else a"
  have len: "length ?a' = length vs" using Cons.prems by simp
  have "map (\<lambda>j. if j \<in> set order then Some (vs ! j) else ?a' ! j) [0..<length vs]
        = map (\<lambda>j. if j \<in> set (i # order) then Some (vs ! j) else a ! j) [0..<length vs]"
    using Cons.prems by (intro map_cong) (auto simp: nth_list_update)
  then show ?case
    using Cons.IH [OF len] by simp
qed

lemma promiseAll_complete:
  assumes "{0..<length vs} \<subseteq> set order"
  shows "promiseAll order vs = Some vs"
proof -
  have "map (\<lambda>i. if i \<in> set order then Some (vs ! i) else replicate (length vs) None ! i) [0..<length vs]
        = map (\<lambda>i. Some (vs ! i)) [0..<length vs]"
    using assms by (intro map_cong) auto
  also have "\<dots> = map Some (map (\<lambda>i. vs ! i) [0..<length vs])" by simp
  also have "\<dots> = map Some vs" by (simp only: map_nth)
  finally show ?thesis
    by (simp add: promiseAll_def foldl_fill those_map_Some)
qed

lemma find_first_Some:
  assumes "i < length vs" "vs ! i = Some r" "\<forall>j<i. vs ! j = None"
  shows "List.find (\<lambda>r. r \<noteq> None) vs = Some (Some r)"
  using assms by (auto simp: find_Some_iff intro!: exI [of _ i])

lemma find_all_None:
  assumes "\<forall>j<length vs. vs ! j = None"
  shows "List.find (\<lambda>r. r \<noteq> None) vs = None"
  using assms by (auto simp: find_None_iff in_set_conv_nth)

lemma probeSuffixes_first:
  assumes order: "{0..<11} \<subseteq> set order"
      and i: "i < 11"
      and ok: "suffixAttempt net parseDoc enc baseUrl (drop 1 RSS_SUFFIXES ! i) = Some r"
      and before: "\<forall>j<i. suffixAttempt net parseDoc enc baseUrl (drop 1 RSS_SUFFIXES ! j) = None"
  shows "probeSuffixes net parseDoc enc order baseUrl = Some (Fulfilled r)"
proof -
  define S where "S = drop 1 RSS_SUFFIXES"
  let ?vs = "map (suffixAttempt net parseDoc enc baseUrl) S"
  have lenS: "length S = 11" by (simp add: S_def RSS_SUFFIXES_def)
  have all: "promiseAll order ?vs = Some ?vs"
    using order by (intro promiseAll_complete) (simp add: lenS)
  have ok': "suffixAttempt net parseDoc enc baseUrl (S ! i) = Some r"
    using ok by (simp only: S_def)
  have before': "\<forall>j<i. suffixAttempt net parseDoc enc baseUrl (S ! j) = None"
    using before by (simp only: S_def)
  have "List.find (\<lambda>r. r \<noteq> None) ?vs = Some (Some r)"
    using i ok' before' lenS by (intro find_first_Some [of i]) simp_all
  then show ?thesis
    unfolding probeSuffixes_def S_def [symmetric] all by simp
qed

lemma probeSuffixes_none:
  assumes order: "{0..<11} \<subseteq> set order"
      and none: "\<forall>j<11. suffixAttempt net parseDoc enc baseUrl (drop 1 RSS_SUFFIXES ! j) = None"
  shows "probeSuffixes net parseDoc enc order baseUrl = Some (Rejected msgUnparseable)"
proof -
  define S where "S = drop 1 RSS_SUFFIXES"
  let ?vs = "map (suffixAttempt net parseDoc enc baseUrl) S"
  have lenS: "length S = 11" by (simp add: S_def RSS_SUFFIXES_def)
  have all: "promiseAll order ?vs = Some ?vs"
    using order by (intro promiseAll_complete) (simp add: lenS)
  have none': "\<forall>j<11. suffixAttempt net parseDoc enc baseUrl (S ! j) = None"
    using none by (simp only: S_def)
  have "List.find (\<lambda>r. r \<noteq> None) ?vs = None"
    using none' lenS by (intro find_all_None) simp
  then show ?thesis
    unfolding probeSuffixes_def S_def [symmetric] all by simp
qed

lemma suffixes_tail:
  "drop 1 RSS_SUFFIXES = [''/feed'', ''/feed/'', ''/rss'', ''/rss/'', ''/index.xml'', ''/feed.xml'',
     ''/rss.xml'', ''?format=rss'', ''?format=atom'', ''/atom'', ''/atom.xml'']"
  by (simp add: RSS_SUFFIXES_def)

lemma suffixAttempt_None:
  "suffixAttempt net parseDoc enc baseUrl s = None
   \<longleftrightarrow> (\<forall>d. tryParseUrl net parseDoc enc (baseUrl @ s) = Some d \<longrightarrow> pf_items d = [])"
  by (auto simp: suffixAttempt_def split: option.splits)

lemma suffixAttempt_Some:
  "tryParseUrl net parseDoc enc (baseUrl @ s) = Some r \<Longrightarrow> pf_items r \<noteq> [] \<Longrightarrow>
   suffixAttempt net parseDoc enc baseUrl s = Some r"
  by (simp add: suffixAttempt_def)

lemma parseRSSFeed_direct_fails:
  assumes "\<forall>d. tryParseUrl net parseDoc enc (stripTrailingSlash (trim url)) = Some d \<longrightarrow> pf_items d = []"
  shows "parseRSSFeed net parseDoc enc order url
         = probeSuffixes net parseDoc enc order (stripTrailingSlash (trim url))"
  using assms by (simp add: parseRSSFeed_def Let_def split: option.splits)

text \<open>
  Claim C3. Let the direct attempt on the normalised address fail (no document, or a document
  without entries), and let every one of the eleven suffix attempts settle, in any order
  \<open>order\<close>. If the attempt with the suffix at position \<open>i\<close> of the fixed list yields a document
  with at least one entry and every suffix before it in the list fails, the resolver returns the
  feed of suffix \<open>i\<close>: the choice is by position in the list, whatever the order of arrival.
\<close>

theorem resolver_priority_order:
  fixes suffixes :: "string list"
  assumes sfx: "suffixes = [''/feed'', ''/feed/'', ''/rss'', ''/rss/'', ''/index.xml'', ''/feed.xml'',
                  ''/rss.xml'', ''?format=rss'', ''?format=atom'', ''/atom'', ''/atom.xml'']"
      and base: "baseUrl = stripTrailingSlash (trim url)"
      and direct: "\<forall>d. tryParseUrl net parseDoc enc baseUrl = Some d \<longrightarrow> pf_items d = []"
      and order: "{0..<11} \<subseteq> set order"
      and i: "i < 11"
      and ok: "tryParseUrl net parseDoc enc (baseUrl @ suffixes ! i) = Some r" "pf_items r \<noteq> []"
      and before: "\<forall>s\<in>set (take i suffixes).
                     \<forall>d. tryParseUrl net parseDoc enc (baseUrl @ s) = Some d \<longrightarrow> pf_items d = []"
  shows "parseRSSFeed net parseDoc enc order url = Some (Fulfilled r)"
proof -
  have S: "drop 1 RSS_SUFFIXES = suffixes"
    unfolding sfx by (rule suffixes_tail)
  have len: "length suffixes = 11" by (simp add: sfx)
  have "probeSuffixes net parseDoc enc order baseUrl = Some (Fulfilled r)"
  proof (rule probeSuffixes_first [OF order i])
    show "suffixAttempt net parseDoc enc baseUrl (drop 1 RSS_SUFFIXES ! i) = Some r"
      unfolding S using ok by (rule suffixAttempt_Some)
    show "\<forall>j<i. suffixAttempt net parseDoc enc baseUrl (drop 1 RSS_SUFFIXES ! j) = None"
      unfolding S suffixAttempt_None
    proof (intro allI impI)
      fix j d assume j: "j < i" and d: "tryParseUrl net parseDoc enc (baseUrl @ suffixes ! j) = Some d"
      have "suffixes ! j \<in> set (take i suffixes)"
        using j i len by (auto simp: in_set_conv_nth intro!: exI [of _ j])
      with before d show "pf_items d = []" by blast
    qed
  qed
  then show ?thesis
    using parseRSSFeed_direct_fails [of net parseDoc enc url order] direct base by simp
qed

text \<open>
  Claim C6, amended. When the direct attempt and every suffix attempt fail (no document, or a
  document without entries), the resolver fails with the one fixed message \<open>msgUnparseable\<close>
  ("cannot parse this feed, check that the URL is right"); no underlying error is part of it.
\<close>

theorem resolver_all_fail:
  assumes base: "baseUrl = stripTrailingSlash (trim url)"
      and order: "{0..<11} \<subseteq> set order"
      and fail: "\<forall>s\<in>set RSS_SUFFIXES.
                   \<forall>d. tryParseUrl net parseDoc enc (baseUrl @ s) = Some d \<longrightarrow> pf_items d = []"
  shows "parseRSSFeed net parseDoc enc order url = Some (Rejected msgUnparseable)"
proof -
  have "'''' \<in> set RSS_SUFFIXES" by (simp add: RSS_SUFFIXES_def)
  with fail have direct: "\<forall>d. tryParseUrl net parseDoc enc baseUrl = Some d \<longrightarrow> pf_items d = []"
    by fastforce
  have "probeSuffixes net parseDoc enc order baseUrl = Some (Rejected msgUnparseable)"
  proof (rule probeSuffixes_none [OF order])
    show "\<forall>j<11. suffixAttempt net parseDoc enc baseUrl (drop 1 RSS_SUFFIXES ! j) = None"
      unfolding suffixAttempt_None
    proof (intro allI impI)
      fix j d assume j: "j < (11::nat)"
        and d: "tryParseUrl net parseDoc enc (baseUrl @ drop 1 RSS_SUFFIXES ! j) = Some d"
      have "length (drop 1 RSS_SUFFIXES) = 11" by (simp add: RSS_SUFFIXES_def)
      then have "drop 1 RSS_SUFFIXES ! j \<in> set (drop 1 RSS_SUFFIXES)"
        using j by (metis nth_mem)
      then have "drop 1 RSS_SUFFIXES ! j \<in> set RSS_SUFFIXES"
        by (rule in_set_dropD)
      with fail d show "pf_items d = []" by blast
    qed
  qed
  then show ?thesis
    using parseRSSFeed_direct_fails [of net parseDoc enc url order] direct base by simp
qed

lemmas resolver_eval = tryParseUrl_def fetchWithProxy_def CORS_PROXIES_def sampleEncode_def sampleNetwork_def
  sampleParseDoc_def sampleParsed_def emptyParsedItem_def deadNetwork_def

lemma trim_example: "stripTrailingSlash (trim '' http://site.example/ '') = ''http://site.example''"
  by (simp add: trim_def stripTrailingSlash_def isWhiteSpace_def)

text \<open>The theorem on a site whose \<open>/rss\<close> and \<open>/feed.xml\<close> both answer with a feed, the
  attempts settling in reverse list order (so \<open>/feed.xml\<close> arrives before \<open>/rss\<close>): the
  feed of \<open>/rss\<close>, the earlier suffix, is returned.\<close>

theorem resolver_priority_order_witness:
  "parseRSSFeed sampleNetwork sampleParseDoc sampleEncode [10, 9, 8, 7, 6, 5, 4, 3, 2, 1, 0] '' http://site.example/ ''
   = Some (Fulfilled (sampleParsed [emptyParsedItem\<lparr> p_title := Some ''from rss'' \<rparr>]))"
proof (rule resolver_priority_order [where i = 2 and baseUrl = "''http://site.example''", OF refl])
  show "''http://site.example'' = stripTrailingSlash (trim '' http://site.example/ '')"
    by (simp add: trim_example)
  show "\<forall>d. tryParseUrl sampleNetwork sampleParseDoc sampleEncode ''http://site.example'' = Some d \<longrightarrow> pf_items d = []"
    by (simp add: resolver_eval)
  show "{0..<11} \<subseteq> set [10, 9, 8, 7, 6, 5, 4, 3, 2, 1, 0::nat]"
    by code_simp
  show "(2::nat) < 11" by simp
  show "tryParseUrl sampleNetwork sampleParseDoc sampleEncode
         (''http://site.example'' @ [''/feed'', ''/feed/'', ''/rss'', ''/rss/'', ''/index.xml'', ''/feed.xml'',
                  ''/rss.xml'', ''?format=rss'', ''?format=atom'', ''/atom'', ''/atom.xml''] ! 2)
        = Some (sampleParsed [emptyParsedItem\<lparr> p_title := Some ''from rss'' \<rparr>])"
    by (simp add: resolver_eval)
  show "pf_items (sampleParsed [emptyParsedItem\<lparr> p_title := Some ''from rss'' \<rparr>]) \<noteq> []"
    by (simp add: sampleParsed_def)
  show "\<forall>s\<in>set (take 2 [''/feed'', ''/feed/'', ''/rss'', ''/rss/'', ''/index.xml'', ''/feed.xml'',
                  ''/rss.xml'', ''?format=rss'', ''?format=atom'', ''/atom'', ''/atom.xml'']).
          \<forall>d. tryParseUrl sampleNetwork sampleParseDoc sampleEncode (''http://site.example'' @ s) = Some d
              \<longrightarrow> pf_items d = []"
    by (simp add: resolver_eval)
qed

text \<open>The amended theorem on a network where every request fails.\<close>

theorem resolver_all_fail_witness:
  "parseRSSFeed deadNetwork sampleParseDoc sampleEncode [0, 1, 2, 3, 4, 5, 6, 7, 8, 9, 10] ''http://site.example''
   = Some (Rejected msgUnparseable)"
proof (rule resolver_all_fail [where baseUrl = "''http://site.example''"])
  show "''http://site.example'' = stripTrailingSlash (trim ''http://site.example'')"
    by (simp add: trim_def stripTrailingSlash_def isWhiteSpace_def)
  show "{0..<11} \<subseteq> set [0, 1, 2, 3, 4, 5, 6, 7, 8, 9, 10::nat]"
    by code_simp
  show "\<forall>s\<in>set RSS_SUFFIXES. \<forall>d. tryParseUrl deadNetwork sampleParseDoc sampleEncode (''http://site.example'' @ s) = Some d
          \<longrightarrow> pf_items d = []"
    by (simp add: resolver_eval)
qed

lemma probe_dead:
  "probeSuffixes deadNetwork sampleParseDoc sampleEncode [0, 1, 2, 3, 4, 5, 6, 7, 8, 9, 10] ''http://site.example''
    = Some (Rejected msgUnparseable)"
proof (rule probeSuffixes_none)
  show "{0..<11} \<subseteq> set [0, 1, 2, 3, 4, 5, 6, 7, 8, 9, 10::nat]"
    by code_simp
  show "\<forall>j<11. suffixAttempt deadNetwork sampleParseDoc sampleEncode ''http://site.example''
          (drop 1 RSS_SUFFIXES ! j) = None"
    by (simp add: suffixAttempt_def resolver_eval)
qed

text \<open>
  Claim C6 as stated fails: on a network where every request throws \<open>ECONNRESET\<close>, the last
  attempt's fetch fails with a message that carries this error, and the resolver's error is
  the fixed message, in which \<open>ECONNRESET\<close> does not occur.
\<close>

theorem resolver_error_counterexample:
  "fetchWithProxy deadNetwork sampleEncode (''http://site.example'' @ last RSS_SUFFIXES)
     = Rejected (msgFetchPrefix @ ''ECONNRESET'')
   \<and> parseRSSFeed deadNetwork sampleParseDoc sampleEncode [0, 1, 2, 3, 4, 5, 6, 7, 8, 9, 10] ''http://site.example''
     = Some (Rejected msgUnparseable)
   \<and> \<not> sublist ''ECONNRESET'' msgUnparseable"
proof (intro conjI)
  show "fetchWithProxy deadNetwork sampleEncode (''http://site.example'' @ last RSS_SUFFIXES)
     = Rejected (msgFetchPrefix @ ''ECONNRESET'')"
    by (simp add: resolver_eval)
  have t: "stripTrailingSlash (trim ''http://site.example'') = ''http://site.example''"
    by (simp add: trim_def stripTrailingSlash_def isWhiteSpace_def)
  have "parseRSSFeed deadNetwork sampleParseDoc sampleEncode [0, 1, 2, 3, 4, 5, 6, 7, 8, 9, 10] ''http://site.example''
     = probeSuffixes deadNetwork sampleParseDoc sampleEncode [0, 1, 2, 3, 4, 5, 6, 7, 8, 9, 10]
         (stripTrailingSlash (trim ''http://site.example''))"
    by (rule parseRSSFeed_direct_fails) (simp add: t resolver_eval)
  then show "parseRSSFeed deadNetwork sampleParseDoc sampleEncode [0, 1, 2, 3, 4, 5, 6, 7, 8, 9, 10] ''http://site.example''
     = Some (Rejected msgUnparseable)"
    by (simp only: t probe_dead)
  show "\<not> sublist ''ECONNRESET'' msgUnparseable"
    by (simp add: msgUnparseable_def sublist_Cons_right)
qed

section \<open>Properties of the batch ingestion\<close>

lemma prefilterStep_cases:
  "prefilterStep P E (res, vs) u =
     (if \<not> acceptable P u then
        (res\<lparr> failed := failed res + 1, errors := errors res @ [rejectionText P u] \<rparr>, vs)
      else if trim u \<in> E then (res\<lparr> skipped := skipped res + 1 \<rparr>, vs)
      else (res, vs @ [trim u]))"
  by (simp add: prefilterStep_def acceptable_def rejectionText_def split: option.splits)

lemma prefilter_fold:
  "foldl (prefilterStep P E) (res, vs) urls =
     (res\<lparr> failed := failed res + length (filter (\<lambda>u. \<not> acceptable P u) urls),
           skipped := skipped res + length (filter (\<lambda>u. acceptable P u \<and> trim u \<in> E) urls),
           errors := errors res @ map (rejectionText P) (filter (\<lambda>u. \<not> acceptable P u) urls) \<rparr>,
      vs @ map trim (filter (\<lambda>u. acceptable P u \<and> trim u \<notin> E) urls))"
proof (induction urls arbitrary: res vs)
  case Nil
  show ?case by simp
next
  case (Cons u urls)
  show ?case
    by (simp add: prefilterStep_cases Cons.IH)
qed

lemma prefilter_eq:
  "prefilter P fs urls =
     (\<lparr> success = 0,
        failed = length (filter (\<lambda>u. \<not> acceptable P u) urls),
        skipped = length (filter (\<lambda>u. acceptable P u \<and> trim u \<in> set (map feed_url fs)) urls),
        errors = map (rejectionText P) (filter (\<lambda>u. \<not> acceptable P u) urls) \<rparr>,
      map trim (filter (\<lambda>u. acceptable P u \<and> trim u \<notin> set (map feed_url fs)) urls))"
  by (simp add: prefilter_def prefilter_fold emptyResult_def)

lemma waitingUrls_map_Waiting: "waitingUrls (map Waiting xs) = xs"
  by (induction xs) auto

lemma waitingUrls_update:
  "w < length ws \<Longrightarrow>
   mset (waitingUrls (ws[w := x])) + mset (waitingUrls [ws ! w]) = mset (waitingUrls ws) + mset (waitingUrls [x])"
proof (induction ws arbitrary: w)
  case Nil
  then show ?case by simp
next
  case (Cons a ws)
  show ?case
  proof (cases w)
    case 0
    then show ?thesis by (cases a; cases x) auto
  next
    case (Suc v)
    with Cons.prems have "v < length ws" by simp
    from Cons.IH [OF this] show ?thesis
      using Suc by (cases a) auto
  qed
qed

lemma endOfIteration_eq:
  "endOfIteration (s1, leave) w =
     (if \<not> leave \<and> index s1 < length (newUrls s1) \<and> \<not> aborted s1 then
        s1\<lparr> index := index s1 + 1,
             completed := completed s1 + 1,
             workers := (workers s1)[w := Waiting (newUrls s1 ! index s1)],
             calls := calls s1 @ [newUrls s1 ! index s1],
             progress := progress s1 @ [(completed s1 + 1, length (newUrls s1))] \<rparr>
      else
        s1\<lparr> completed := completed s1 + 1,
             workers := (workers s1)[w := Done],
             progress := (if aborted s1 then progress s1
                          else progress s1 @ [(completed s1 + 1, length (newUrls s1))]) \<rparr>)"
  by (simp add: endOfIteration_def finallyBlock_def claimNext_def Let_def)

lemma endOfIteration_claim:
  assumes "\<not> leave" "index s1 < length (newUrls s1)" "\<not> aborted s1"
  shows "endOfIteration (s1, leave) w =
        s1\<lparr> index := index s1 + 1,
             completed := completed s1 + 1,
             workers := (workers s1)[w := Waiting (newUrls s1 ! index s1)],
             calls := calls s1 @ [newUrls s1 ! index s1],
             progress := progress s1 @ [(completed s1 + 1, length (newUrls s1))] \<rparr>"
  using assms by (simp add: endOfIteration_eq)

lemma endOfIteration_leave:
  assumes "leave \<or> \<not> index s1 < length (newUrls s1) \<or> aborted s1"
  shows "endOfIteration (s1, leave) w =
        s1\<lparr> completed := completed s1 + 1,
             workers := (workers s1)[w := Done],
             progress := (if aborted s1 then progress s1
                          else progress s1 @ [(completed s1 + 1, length (newUrls s1))]) \<rparr>"
  using assms by (auto simp: endOfIteration_eq)

lemma start_fold:
  assumes "j \<le> k" "k \<le> length vs"
  shows "foldl claimNext
           \<lparr> app = st, results = res, newUrls = vs, index = 0, completed = 0, aborted = False,
              workers = replicate k AtLoopHead, calls = [], progress = [] \<rparr> [0..<j]
         = \<lparr> app = st, results = res, newUrls = vs, index = j, completed = 0, aborted = False,
              workers = map Waiting (take j vs) @ replicate (k - j) AtLoopHead,
              calls = take j vs, progress = [] \<rparr>"
  using assms
proof (induction j)
  case 0
  then show ?case by simp
next
  case (Suc j)
  then have j: "j < k" "j < length vs" by simp_all
  have upd: "(map Waiting (take j vs) @ replicate (k - j) AtLoopHead)[j := Waiting (vs ! j)]
             = map Waiting (take (Suc j) vs) @ replicate (k - Suc j) AtLoopHead"
  proof -
    have "replicate (k - j) AtLoopHead = AtLoopHead # replicate (k - Suc j) AtLoopHead"
      using j by (cases "k - j") (simp_all add: Suc_diff_Suc)
    then show ?thesis
      using j by (simp add: list_update_append take_Suc_conv_app_nth)
  qed
  let ?s0 = "\<lparr> app = st, results = res, newUrls = vs, index = 0, completed = 0, aborted = False,
              workers = replicate k AtLoopHead, calls = [], progress = [] \<rparr>"
  let ?X = "\<lparr> app = st, results = res, newUrls = vs, index = j, completed = 0, aborted = False,
              workers = map Waiting (take j vs) @ replicate (k - j) AtLoopHead,
              calls = take j vs, progress = [] \<rparr>"
  have IH: "foldl claimNext ?s0 [0..<j] = ?X"
    using Suc by simp
  have "foldl claimNext ?s0 [0..<Suc j] = claimNext (foldl claimNext ?s0 [0..<j]) j"
    by simp
  also have "\<dots> = claimNext ?X j"
    by (simp only: IH)
  also have "\<dots> = \<lparr> app = st, results = res, newUrls = vs, index = Suc j, completed = 0, aborted = False,
              workers = map Waiting (take (Suc j) vs) @ replicate (k - Suc j) AtLoopHead,
              calls = take (Suc j) vs, progress = [] \<rparr>"
    using j upd by (simp add: claimNext_def Let_def take_Suc_conv_app_nth)
  finally show ?case .
qed

lemma startBatch_eq:
  "startBatch P st urls =
     (case prefilter P (feeds st) urls of
        (res, vs) \<Rightarrow>
          \<lparr> app = st, results = res, newUrls = vs, index = min MAX_CONCURRENT (length vs), completed = 0,
             aborted = False, workers = map Waiting (take (min MAX_CONCURRENT (length vs)) vs),
             calls = take (min MAX_CONCURRENT (length vs)) vs, progress = [] \<rparr>)"
proof (cases "prefilter P (feeds st) urls")
  case (Pair res vs)
  show ?thesis
  proof (cases "vs = []")
    case True
    then show ?thesis by (simp add: startBatch_def Pair)
  next
    case False
    then show ?thesis
      using start_fold [of "min MAX_CONCURRENT (length vs)" "min MAX_CONCURRENT (length vs)" vs st res]
      by (simp add: startBatch_def Pair)
  qed
qed

lemma length_waiting_update:
  assumes "w < length ws" "ws ! w = Waiting u"
  shows "length (waitingUrls (ws[w := Waiting c])) = length (waitingUrls ws)"
    and "Suc (length (waitingUrls (ws[w := Done]))) = length (waitingUrls ws)"
  using arg_cong [OF waitingUrls_update [OF assms(1), of "Waiting c"], of size]
        arg_cong [OF waitingUrls_update [OF assms(1), of Done], of size] assms(2)
  by simp_all

lemma tryBlock_frame:
  assumes "tryBlock s u outcome newId stamp now = (s1, leave)"
  shows "index s1 = index s \<and> newUrls s1 = newUrls s \<and> completed s1 = completed s
         \<and> aborted s1 = aborted s \<and> workers s1 = workers s \<and> calls s1 = calls s
         \<and> progress s1 = progress s"
  using assms
  by (auto simp: tryBlock_def catchBlock_def commitFeed_def Let_def split: settled.splits if_splits)

lemma counting_frame:
  assumes "index s1 = index s \<and> newUrls s1 = newUrls s \<and> completed s1 = completed s
         \<and> aborted s1 = aborted s \<and> workers s1 = workers s \<and> calls s1 = calls s
         \<and> progress s1 = progress s"
  shows "counting s1 = counting s"
  using assms by (simp add: counting_def)

lemma progress_extend:
  assumes "p = map (\<lambda>k. (k, n)) [1..<Suc (length p)]" "length p = c"
  shows "p @ [(c + 1, n)] = map (\<lambda>k. (k, n)) [1..<Suc (length (p @ [(c + 1, n)]))]"
proof -
  have "map (\<lambda>k. (k, n)) [1..<Suc (Suc c)] = map (\<lambda>k. (k, n)) [1..<Suc c] @ [(Suc c, n)]"
    by simp
  then show ?thesis using assms by simp
qed

lemma counting_endOfIteration:
  assumes c: "counting s1" and w: "w < length (workers s1)" "workers s1 ! w = Waiting u"
  shows "counting (endOfIteration (s1, leave) w)"
proof (cases "\<not> leave \<and> index s1 < length (newUrls s1) \<and> \<not> aborted s1")
  case True
  then have na: "\<not> aborted s1" and lt: "index s1 < length (newUrls s1)" by simp_all
  from c na have lp: "length (progress s1) = completed s1" by (simp add: counting_def)
  from c have p: "progress s1 = map (\<lambda>k. (k, length (newUrls s1))) [1..<Suc (length (progress s1))]"
    by (simp add: counting_def)
  have e: "\<not> leave" using True by simp
  show ?thesis
    using c lt length_waiting_update(1) [OF w] progress_extend [OF p lp] lp
    by (simp add: endOfIteration_claim [OF e lt na] counting_def take_Suc_conv_app_nth del: upt_Suc)
next
  case False
  then have e: "leave \<or> \<not> index s1 < length (newUrls s1) \<or> aborted s1" by blast
  from c have p: "progress s1 = map (\<lambda>k. (k, length (newUrls s1))) [1..<Suc (length (progress s1))]"
    by (simp add: counting_def)
  show ?thesis
  proof (cases "aborted s1")
    case True
    then show ?thesis
      using c length_waiting_update(2) [OF w]
      by (simp add: endOfIteration_leave [OF e] counting_def del: upt_Suc)
  next
    case na: False
    from c na have lp: "length (progress s1) = completed s1" by (simp add: counting_def)
    show ?thesis
      using na c length_waiting_update(2) [OF w] progress_extend [OF p lp] lp
      by (simp add: endOfIteration_leave [OF e] counting_def del: upt_Suc)
  qed
qed

lemma counting_resume:
  assumes "counting s" "w < length (workers s)" "workers s ! w = Waiting u"
  shows "counting (resume s w u outcome newId stamp now)"
proof (cases "tryBlock s u outcome newId stamp now")
  case (Pair s1 leave)
  note fr = tryBlock_frame [OF Pair]
  have "counting s1" using counting_frame [OF fr] assms(1) by simp
  moreover have "w < length (workers s1)" "workers s1 ! w = Waiting u" using fr assms by simp_all
  ultimately show ?thesis
    unfolding resume_def Pair by (rule counting_endOfIteration)
qed

lemma waiting_member:
  "w < length ws \<Longrightarrow> ws ! w = Waiting u \<Longrightarrow> u \<in> set (waitingUrls ws)"
proof (induction ws arbitrary: w)
  case Nil
  then show ?case by simp
next
  case (Cons a ws)
  then show ?case by (cases w; cases a) auto
qed

lemma waiting_Done:
  assumes "w < length ws" "ws ! w = Waiting u"
  shows "mset (waitingUrls ws) = mset (waitingUrls (ws[w := Done])) + {#u#}"
  using waitingUrls_update [OF assms(1), of Done] assms(2) by simp

lemma waiting_Done_claim:
  assumes "w < length ws"
  shows "mset (waitingUrls (ws[w := Waiting c])) = mset (waitingUrls (ws[w := Done])) + {#c#}"
  using waitingUrls_update [of w "ws[w := Done]" "Waiting c"] assms by simp

text \<open>The invariant \<open>committing\<close> through one iteration.\<close>

lemma committing_tryBlock:
  assumes t: "tryBlock s u outcome newId stamp now = (s1, leave)"
      and c: "committing fs s" and w: "w < length (workers s)" "workers s ! w = Waiting u"
  shows "committing fs (s1\<lparr> workers := (workers s1)[w := Done] \<rparr>)"
proof -
  from c obtain new others where
    n: "feeds (app s) = new @ fs" "success (results s) = length new"
       "mset (map feed_url new) + mset (waitingUrls (workers s)) + mset others
          = mset (take (index s) (newUrls s))"
    unfolding committing_def by blast
  note wd = waiting_Done [OF w]
  have keep: "committing fs (s2\<lparr> workers := (workers s)[w := Done] \<rparr>)"
    if "feeds (app s2) = feeds (app s)" "success (results s2) = success (results s)"
       "index s2 = index s" "newUrls s2 = newUrls s" for s2 :: batch_state
    unfolding committing_def
    by (rule exI [of _ new], rule exI [of _ "u # others"]) (use n wd that in simp)
  show ?thesis
  proof (cases outcome)
    case (Rejected m)
    with t have "s1 = s \<or> s1 = s\<lparr> results := (results s)\<lparr> failed := failed (results s) + 1,
                     errors := errors (results s) @ [u @ '': '' @ m] \<rparr> \<rparr>"
      by (auto simp: tryBlock_def catchBlock_def split: if_splits)
    then show ?thesis using keep [of s1] by auto
  next
    case (Fulfilled parsed)
    show ?thesis
    proof (cases "\<not> aborted s \<and> pf_items parsed \<noteq> []")
      case True
      with t Fulfilled have s1: "s1 = commitFeed s u parsed newId stamp now"
        by (simp add: tryBlock_def)
      let ?f = "\<lparr> feed_id = newId, feed_title = pf_title parsed, feed_url = u,
                   feed_description = pf_description parsed, feed_lastUpdated = Some stamp \<rparr>"
      show ?thesis
        unfolding committing_def s1
        by (rule exI [of _ "?f # new"], rule exI [of _ others])
           (use n wd in \<open>simp add: commitFeed_def Let_def\<close>)
    next
      case False
      with t Fulfilled have "s1 = s \<or> s1 = s\<lparr> results := (results s)\<lparr> failed := failed (results s) + 1,
                     errors := errors (results s) @ [u @ '': '' @ msgNoItems] \<rparr> \<rparr>"
        by (auto simp: tryBlock_def catchBlock_def split: if_splits)
      then show ?thesis using keep [of s1] by auto
    qed
  qed
qed

lemma committing_endOfIteration:
  assumes c: "committing fs (s1\<lparr> workers := (workers s1)[w := Done] \<rparr>)"
      and w: "w < length (workers s1)"
  shows "committing fs (endOfIteration (s1, leave) w)"
proof (cases "\<not> leave \<and> index s1 < length (newUrls s1) \<and> \<not> aborted s1")
  case True
  then have e: "\<not> leave" "index s1 < length (newUrls s1)" "\<not> aborted s1" by simp_all
  from c obtain new others where
    n: "feeds (app s1) = new @ fs" "success (results s1) = length new"
       "mset (map feed_url new) + mset (waitingUrls ((workers s1)[w := Done])) + mset others
          = mset (take (index s1) (newUrls s1))"
    unfolding committing_def by auto
  show ?thesis
    unfolding committing_def endOfIteration_claim [OF e]
    by (rule exI [of _ new], rule exI [of _ others])
       (use n e waiting_Done_claim [OF w] in \<open>simp add: take_Suc_conv_app_nth\<close>)
next
  case False
  then have e: "leave \<or> \<not> index s1 < length (newUrls s1) \<or> aborted s1" by blast
  show ?thesis
    using c unfolding committing_def endOfIteration_leave [OF e] by simp
qed

text \<open>The invariant \<open>accounting\<close> through one iteration.\<close>

lemma accounting_tryBlock:
  assumes t: "tryBlock s u outcome newId stamp now = (s1, leave)"
      and a: "accounting res s" and u: "u \<in> set (calls s)"
  shows "accounting res (s1\<lparr> completed := completed s1 + 1 \<rparr>)"
proof -
  from a obtain later where
    l: "skipped (results s) = skipped res" "errors (results s) = errors res @ later"
       "failed (results s) = failed res + length later"
       "\<forall>e\<in>set later. \<exists>c\<in>set (calls s). \<exists>m. e = c @ '': '' @ m"
       "success (results s) + length later \<le> completed s"
    unfolding accounting_def by blast
  have fail: "accounting res (s\<lparr> results := (results s)\<lparr> failed := failed (results s) + 1,
                     errors := errors (results s) @ [u @ '': '' @ m] \<rparr>, completed := completed s + 1 \<rparr>)" for m
    unfolding accounting_def
    by (intro conjI exI [of _ "later @ [u @ '': '' @ m]"]) (use l u in auto)
  have same: "accounting res (s\<lparr> completed := completed s + 1 \<rparr>)"
    unfolding accounting_def
    by (intro conjI exI [of _ later]) (use l in auto)
  have commit: "accounting res ((commitFeed s u parsed newId stamp now)\<lparr> completed := completed s + 1 \<rparr>)" for parsed
    unfolding accounting_def
    by (intro conjI exI [of _ later]) (use l in \<open>auto simp: commitFeed_def Let_def\<close>)
  show ?thesis
  proof (cases outcome)
    case (Rejected m)
    with t show ?thesis using fail [of m] same
      by (auto simp: tryBlock_def catchBlock_def split: if_splits)
  next
    case (Fulfilled parsed)
    with t show ?thesis using fail [of msgNoItems] same commit [of parsed]
      by (auto simp: tryBlock_def catchBlock_def commitFeed_def Let_def split: if_splits)
  qed
qed

lemma accounting_endOfIteration:
  assumes a: "accounting res (s1\<lparr> completed := completed s1 + 1 \<rparr>)"
  shows "accounting res (endOfIteration (s1, leave) w)"
proof -
  from a obtain later where
    l: "skipped (results s1) = skipped res" "errors (results s1) = errors res @ later"
       "failed (results s1) = failed res + length later"
       "\<forall>e\<in>set later. \<exists>c\<in>set (calls s1). \<exists>m. e = c @ '': '' @ m"
       "success (results s1) + length later \<le> completed s1 + 1"
    unfolding accounting_def by auto
  show ?thesis
    unfolding accounting_def
    by (intro conjI exI [of _ later]) (use l in \<open>auto simp: endOfIteration_eq\<close>)
qed

lemma waiting_in_calls:
  assumes "counting s" "committing fs s" "w < length (workers s)" "workers s ! w = Waiting u"
  shows "u \<in> set (calls s)"
proof -
  from assms(2) obtain new :: "RSSFeed list" and others where
    "mset (map feed_url new) + mset (waitingUrls (workers s)) + mset others
       = mset (take (index s) (newUrls s))"
    unfolding committing_def by auto
  moreover have "u \<in># mset (waitingUrls (workers s))"
    using waiting_member [OF assms(3,4)] by simp
  ultimately have "u \<in># mset (take (index s) (newUrls s))"
    by (metis union_iff)
  then show ?thesis using assms(1) by (simp add: counting_def)
qed

lemma workers_endOfIteration:
  "length (workers (endOfIteration (s1, leave) w)) = length (workers s1)"
  by (simp add: endOfIteration_eq)

lemma workers_resume:
  "length (workers (resume s w u outcome newId stamp now)) = length (workers s)"
proof (cases "tryBlock s u outcome newId stamp now")
  case (Pair s1 leave)
  then show ?thesis
    using tryBlock_frame [OF Pair] by (simp add: resume_def workers_endOfIteration)
qed

lemma inv_resume:
  assumes i: "batch_inv res fs s" and w: "w < length (workers s)" "workers s ! w = Waiting u"
  shows "batch_inv res fs (resume s w u outcome newId stamp now)"
proof (cases "tryBlock s u outcome newId stamp now")
  case (Pair s1 leave)
  note fr = tryBlock_frame [OF Pair]
  from i have c: "counting s" and m: "committing fs s" and a: "accounting res s"
    by (simp_all add: batch_inv_def)
  have w1: "w < length (workers s1)" using fr w by simp
  have "committing fs (s1\<lparr> workers := (workers s1)[w := Done] \<rparr>)"
    using committing_tryBlock [OF Pair m w] .
  then have "committing fs (endOfIteration (s1, leave) w)"
    using w1 by (rule committing_endOfIteration)
  moreover have "accounting res (s1\<lparr> completed := completed s1 + 1 \<rparr>)"
    using accounting_tryBlock [OF Pair a waiting_in_calls [OF c m w]] .
  then have "accounting res (endOfIteration (s1, leave) w)"
    by (rule accounting_endOfIteration)
  moreover have "counting (resume s w u outcome newId stamp now)"
    using counting_resume [OF c w] .
  ultimately show ?thesis
    by (simp add: batch_inv_def resume_def Pair)
qed

lemma cancelWorker_resume:
  "workers s ! w = Waiting u \<Longrightarrow> cancelWorker s w = resume s w u (Rejected msgCancelled) newId stamp now"
  by (simp add: cancelWorker_def resume_def tryBlock_def)

lemma inv_cancelWorker:
  assumes "batch_inv res fs s" "w < length (workers s)"
  shows "batch_inv res fs (cancelWorker s w) \<and> length (workers (cancelWorker s w)) = length (workers s)"
proof (cases "workers s ! w")
  case (Waiting u)
  show ?thesis
    using inv_resume [OF assms Waiting, of "Rejected msgCancelled" "[]" 0 "\<lambda>i. 0"]
      workers_resume [of s w u "Rejected msgCancelled" "[]" 0 "\<lambda>i. 0"]
    by (simp add: cancelWorker_resume [OF Waiting, of "[]" 0 "\<lambda>i. 0"])
qed (simp_all add: cancelWorker_def assms)

lemma inv_cancel_fold:
  assumes "batch_inv res fs s" "k \<le> length (workers s)"
  shows "batch_inv res fs (foldl cancelWorker s [0..<k])
         \<and> length (workers (foldl cancelWorker s [0..<k])) = length (workers s)"
  using assms(2)
proof (induction k)
  case 0
  then show ?case using assms(1) by simp
next
  case (Suc k)
  then have IH: "batch_inv res fs (foldl cancelWorker s [0..<k])"
      "length (workers (foldl cancelWorker s [0..<k])) = length (workers s)"
    by simp_all
  have "k < length (workers (foldl cancelWorker s [0..<k]))"
    using Suc.prems IH(2) by simp
  from inv_cancelWorker [OF IH(1) this] show ?case
    using IH(2) by simp
qed

lemma inv_aborted: "batch_inv res fs s \<Longrightarrow> batch_inv res fs (s\<lparr> aborted := True \<rparr>)"
  by (auto simp: batch_inv_def counting_def committing_def accounting_def)

lemma inv_step:
  assumes "batch_inv res fs s"
  shows "batch_inv res fs (step s ev)"
proof (cases ev)
  case (Settle w outcome newId stamp now)
  show ?thesis
  proof (cases "w < length (workers s)")
    case True
    show ?thesis
    proof (cases "workers s ! w")
      case (Waiting u)
      then show ?thesis
        using inv_resume [OF assms True Waiting] True by (simp add: step_def Settle)
    qed (simp_all add: step_def Settle assms)
  qed (simp add: step_def Settle assms)
next
  case Abort
  have "batch_inv res fs (foldl cancelWorker (s\<lparr> aborted := True \<rparr>) [0..<length (workers s)])"
    using inv_cancel_fold [OF inv_aborted [OF assms], of "length (workers s)"] by simp
  then show ?thesis by (simp add: step_def Abort)
qed

lemma inv_run: "batch_inv res fs s \<Longrightarrow> batch_inv res fs (foldl step s evs)"
  by (induction evs arbitrary: s) (simp_all add: inv_step)

lemma inv_start:
  "batch_inv (fst (prefilter P (feeds st) urls)) (feeds st) (startBatch P st urls)"
proof -
  obtain res vs where pf: "prefilter P (feeds st) urls = (res, vs)" by (cases "prefilter P (feeds st) urls")
  have s0: "success res = 0" using pf by (auto simp: prefilter_eq)
  let ?k = "min MAX_CONCURRENT (length vs)"
  have "counting (startBatch P st urls)"
    by (simp add: startBatch_eq pf counting_def waitingUrls_map_Waiting)
  moreover have "committing (feeds st) (startBatch P st urls)"
    unfolding committing_def
    by (rule exI [of _ "[]"], rule exI [of _ "[]"])
       (simp add: startBatch_eq pf s0 waitingUrls_map_Waiting)
  moreover have "accounting res (startBatch P st urls)"
    unfolding accounting_def
    by (intro conjI exI [of _ "[]"]) (simp_all add: startBatch_eq pf s0)
  ultimately show ?thesis by (simp add: batch_inv_def pf)
qed

lemma inv_addFeedsBatch:
  "batch_inv (fst (prefilter P (feeds st) urls)) (feeds st) (addFeedsBatch P st urls evs)"
  unfolding addFeedsBatch_def by (rule inv_run [OF inv_start])

text \<open>What no event changes, and how the progress log grows.\<close>

lemma newUrls_resume: "newUrls (resume s w u outcome newId stamp now) = newUrls s"
proof (cases "tryBlock s u outcome newId stamp now")
  case (Pair s1 leave)
  then show ?thesis
    using tryBlock_frame [OF Pair] by (simp add: resume_def endOfIteration_eq)
qed

lemma progress_resume:
  "length (progress (resume s w u outcome newId stamp now)) \<le> Suc (length (progress s))
   \<and> (aborted s \<longrightarrow> progress (resume s w u outcome newId stamp now) = progress s)
   \<and> aborted (resume s w u outcome newId stamp now) = aborted s"
proof (cases "tryBlock s u outcome newId stamp now")
  case (Pair s1 leave)
  then show ?thesis
    using tryBlock_frame [OF Pair] by (simp add: resume_def endOfIteration_eq)
qed

lemma cancel_fold_fields:
  "newUrls (foldl cancelWorker s ws) = newUrls s
   \<and> aborted (foldl cancelWorker s ws) = aborted s
   \<and> (aborted s \<longrightarrow> progress (foldl cancelWorker s ws) = progress s)
   \<and> app (foldl cancelWorker s ws) = app s"
proof (induction ws arbitrary: s)
  case Nil
  show ?case by simp
next
  case (Cons w ws)
  have one: "newUrls (cancelWorker s w) = newUrls s \<and> aborted (cancelWorker s w) = aborted s
     \<and> (aborted s \<longrightarrow> progress (cancelWorker s w) = progress s) \<and> app (cancelWorker s w) = app s"
    by (cases "workers s ! w") (simp_all add: cancelWorker_def catchBlock_def endOfIteration_eq)
  show ?case
    using Cons.IH [of "cancelWorker s w"] one by simp
qed

lemma newUrls_step: "newUrls (step s ev) = newUrls s"
  by (cases ev) (simp_all add: step_def newUrls_resume cancel_fold_fields split: worker.splits)

lemma newUrls_run: "newUrls (foldl step s evs) = newUrls s"
  by (induction evs arbitrary: s) (simp_all add: newUrls_step)

lemma progress_step:
  "length (progress (step s ev)) \<le> length (progress s) + (if ev = Abort then 0 else 1)"
proof (cases ev)
  case (Settle w outcome newId stamp now)
  then show ?thesis
    using progress_resume [of s w _ outcome newId stamp now]
    by (auto simp: step_def split: worker.splits)
next
  case Abort
  then show ?thesis
    using cancel_fold_fields [of "s\<lparr> aborted := True \<rparr>" "[0..<length (workers s)]"]
    by (simp add: step_def)
qed

lemma progress_run:
  "length (progress (foldl step s evs)) \<le> length (progress s) + length (filter (\<lambda>e. e \<noteq> Abort) evs)"
proof (induction evs arbitrary: s)
  case Nil
  show ?case by simp
next
  case (Cons ev evs)
  show ?case
    using Cons.IH [of "step s ev"] progress_step [of s ev] by auto
qed

lemma newUrls_start:
  "newUrls (startBatch P st urls)
   = map trim (filter (\<lambda>u. acceptable P u \<and> trim u \<notin> set (map feed_url (feeds st))) urls)"
  by (simp add: startBatch_eq prefilter_eq)

lemma newUrls_addFeedsBatch:
  "newUrls (addFeedsBatch P st urls evs)
   = map trim (filter (\<lambda>u. acceptable P u \<and> trim u \<notin> set (map feed_url (feeds st))) urls)"
  by (simp add: addFeedsBatch_def newUrls_run newUrls_start)

text \<open>Runs without an abort and without a cancellation.\<close>

lemma tryBlock_stays:
  assumes "tryBlock s u outcome newId stamp now = (s1, leave)" "\<not> aborted s"
    "outcome \<noteq> Rejected msgCancelled"
  shows "\<not> leave"
  using assms by (auto simp: tryBlock_def catchBlock_def split: settled.splits if_splits)

lemma undisturbed_endOfIteration:
  assumes u: "undisturbed s1" and c: "counting s1" and w: "w < length (workers s1)"
  shows "undisturbed (endOfIteration (s1, False) w)"
proof (cases "index s1 < length (newUrls s1)")
  case True
  from u have na: "\<not> aborted s1" by (simp add: undisturbed_def)
  have noDone: "Done \<notin> set (workers s1)"
    using u True by (auto simp: undisturbed_def)
  have "set ((workers s1)[w := Waiting (newUrls s1 ! index s1)])
        \<subseteq> insert (Waiting (newUrls s1 ! index s1)) (set (workers s1))"
    by (rule set_update_subset_insert)
  then have "Done \<notin> set ((workers s1)[w := Waiting (newUrls s1 ! index s1)])"
    using noDone by auto
  moreover have "(workers s1)[w := Waiting (newUrls s1 ! index s1)] \<noteq> []"
    using w by auto
  ultimately show ?thesis
    using na by (auto simp: endOfIteration_claim [OF _ True na] undisturbed_def)
next
  case False
  with c have eq: "index s1 = length (newUrls s1)" by (simp add: counting_def)
  have e: "False \<or> \<not> index s1 < length (newUrls s1) \<or> aborted s1" using False by simp
  have "(workers s1)[w := Done] \<noteq> []" using w by auto
  then show ?thesis
    using u eq by (auto simp: endOfIteration_leave [OF e] undisturbed_def)
qed

lemma undisturbed_step:
  assumes u: "undisturbed s" and c: "counting s" and d: "\<not> disturbs ev"
  shows "undisturbed (step s ev)"
proof (cases ev)
  case Abort
  with d show ?thesis by simp
next
  case (Settle w outcome newId stamp now)
  show ?thesis
  proof (cases "w < length (workers s)")
    case False
    then show ?thesis using u by (simp add: step_def Settle)
  next
    case True
    show ?thesis
    proof (cases "workers s ! w")
      case (Waiting url)
      obtain s1 leave where t: "tryBlock s url outcome newId stamp now = (s1, leave)"
        by (cases "tryBlock s url outcome newId stamp now")
      note fr = tryBlock_frame [OF t]
      have nc: "outcome \<noteq> Rejected msgCancelled"
        using d Settle by (cases outcome) auto
      have "\<not> leave"
        using tryBlock_stays [OF t _ nc] u by (simp add: undisturbed_def)
      moreover have "undisturbed s1" using u fr by (simp add: undisturbed_def)
      moreover have "counting s1" using counting_frame [OF fr] c by simp
      moreover have "w < length (workers s1)" using fr True by simp
      ultimately have "undisturbed (endOfIteration (s1, leave) w)"
        using undisturbed_endOfIteration [of s1 w] by simp
      then show ?thesis
        using True Waiting t by (simp add: step_def Settle resume_def)
    qed (use u True in \<open>simp_all add: step_def Settle\<close>)
  qed
qed

lemma undisturbed_run:
  assumes "undisturbed s" "batch_inv res fs s" "\<forall>ev\<in>set evs. \<not> disturbs ev"
  shows "undisturbed (foldl step s evs)"
  using assms
proof (induction evs arbitrary: s)
  case Nil
  then show ?case by simp
next
  case (Cons ev evs)
  have "undisturbed (step s ev)"
    using undisturbed_step [of s ev] Cons.prems by (simp add: batch_inv_def)
  moreover have "batch_inv res fs (step s ev)"
    using inv_step Cons.prems(2) by blast
  ultimately show ?case
    using Cons.IH [of "step s ev"] Cons.prems(3) by simp
qed

lemma undisturbed_start: "undisturbed (startBatch P st urls)"
proof -
  obtain res vs where pf: "prefilter P (feeds st) urls = (res, vs)" by (cases "prefilter P (feeds st) urls")
  show ?thesis
    by (auto simp: startBatch_eq pf undisturbed_def MAX_CONCURRENT_def min_def split: if_splits)
qed

lemma all_Done_waiting: "list_all (\<lambda>w. w = Done) ws \<Longrightarrow> waitingUrls ws = []"
  by (induction ws) auto

lemma undisturbed_finished:
  assumes u: "undisturbed s" and c: "counting s" and f: "list_all (\<lambda>w. w = Done) (workers s)"
  shows "index s = length (newUrls s) \<and> completed s = length (newUrls s)
         \<and> length (progress s) = length (newUrls s) \<and> calls s = newUrls s"
proof -
  have i: "index s = length (newUrls s)"
  proof (cases "workers s")
    case Nil
    with u have "newUrls s = []" by (simp add: undisturbed_def)
    with c show ?thesis by (simp add: counting_def)
  next
    case (Cons a ws)
    with f have "Done \<in> set (workers s)" by simp
    with u show ?thesis by (simp add: undisturbed_def)
  qed
  moreover have "completed s = index s"
    using c all_Done_waiting [OF f] by (simp add: counting_def)
  moreover have "length (progress s) = completed s"
    using c u by (simp add: counting_def undisturbed_def)
  moreover have "calls s = newUrls s"
    using c i by (simp add: counting_def)
  ultimately show ?thesis by simp
qed

section \<open>The claims about the batch ingestion\<close>

lemma acceptable_iff:
  "acceptable P u \<longleftrightarrow> P (trim u) = Some ''http:'' \<or> P (trim u) = Some ''https:''"
  by (auto simp: acceptable_def split: option.splits)

lemma calls_are_candidates:
  assumes "c \<in> set (calls (addFeedsBatch P st urls evs))"
  shows "\<exists>v\<in>set urls. c = trim v \<and> acceptable P v \<and> trim v \<notin> set (map feed_url (feeds st))"
proof -
  let ?s = "addFeedsBatch P st urls evs"
  have "counting ?s"
    using inv_addFeedsBatch [of P st urls evs] by (simp add: batch_inv_def)
  then have "c \<in> set (newUrls ?s)"
    using assms by (auto simp: counting_def dest: in_set_takeD)
  then show ?thesis
    unfolding newUrls_addFeedsBatch by auto
qed

lemma results_of_run:
  fixes P st urls evs
  defines "s \<equiv> addFeedsBatch P st urls evs"
  shows "skipped (results s)
           = length (filter (\<lambda>v. acceptable P v \<and> trim v \<in> set (map feed_url (feeds st))) urls)
         \<and> (\<exists>later. errors (results s) = map (rejectionText P) (filter (\<lambda>v. \<not> acceptable P v) urls) @ later
               \<and> failed (results s) = length (filter (\<lambda>v. \<not> acceptable P v) urls) + length later
               \<and> (\<forall>e\<in>set later. \<exists>c\<in>set (calls s). \<exists>m. e = c @ '': '' @ m)
               \<and> success (results s) + length later \<le> length (calls s))"
proof -
  have inv: "batch_inv (fst (prefilter P (feeds st) urls)) (feeds st) s"
    unfolding s_def by (rule inv_addFeedsBatch)
  then have c: "counting s" and a: "accounting (fst (prefilter P (feeds st) urls)) s"
    by (simp_all add: batch_inv_def)
  from c have len: "completed s \<le> length (calls s)"
    by (simp add: counting_def)
  from a obtain later where
    l: "skipped (results s) = skipped (fst (prefilter P (feeds st) urls))"
       "errors (results s) = errors (fst (prefilter P (feeds st) urls)) @ later"
       "failed (results s) = failed (fst (prefilter P (feeds st) urls)) + length later"
       "\<forall>e\<in>set later. \<exists>c\<in>set (calls s). \<exists>m. e = c @ '': '' @ m"
       "success (results s) + length later \<le> completed s"
    unfolding accounting_def by blast
  show ?thesis
    by (intro conjI exI [of _ later]) (use l len in \<open>simp_all add: prefilter_eq\<close>)
qed

text \<open>
  Claim C7. Let \<open>u\<close> be an address of the batch whose trimmed text the \<open>URL\<close> constructor
  rejects, or parses with a protocol other than \<open>http:\<close> and \<open>https:\<close>. At every moment of
  the call, no network call was made for it (its trimmed text was never passed to the
  resolver), it is among the addresses counted as failed, and the errors list starts with one
  descriptive string for each such address, in input order: the address, a colon, and
  "invalid URL format" or "only HTTP and HTTPS are supported".
\<close>

theorem batch_rejects_invalid:
  assumes u: "u \<in> set urls"
      and bad: "P (trim u) \<noteq> Some ''http:''" "P (trim u) \<noteq> Some ''https:''"
  shows "let s = addFeedsBatch P st urls evs;
             invalid = filter (\<lambda>v. P (trim v) \<noteq> Some ''http:'' \<and> P (trim v) \<noteq> Some ''https:'') urls
         in trim u \<notin> set (calls s)
            \<and> u \<in> set invalid
            \<and> (\<exists>later. errors (results s)
                         = map (\<lambda>v. v @ '': '' @ (if P (trim v) = None then msgBadUrl else msgBadProtocol))
                               invalid @ later
                       \<and> failed (results s) = length invalid + length later)"
proof -
  let ?s = "addFeedsBatch P st urls evs"
  have inv_eq: "filter (\<lambda>v. P (trim v) \<noteq> Some ''http:'' \<and> P (trim v) \<noteq> Some ''https:'') urls
                = filter (\<lambda>v. \<not> acceptable P v) urls"
    by (simp add: acceptable_iff)
  have rt: "(\<lambda>v. v @ '': '' @ (if P (trim v) = None then msgBadUrl else msgBadProtocol)) = rejectionText P"
    by (auto simp: rejectionText_def fun_eq_iff split: option.splits)
  have nu: "\<not> acceptable P u" using bad by (simp add: acceptable_iff)
  have "trim u \<notin> set (calls ?s)"
  proof
    assume "trim u \<in> set (calls ?s)"
    then obtain v where "trim u = trim v" "acceptable P v"
      using calls_are_candidates by blast
    then have "acceptable P u" by (simp add: acceptable_iff)
    with nu show False by simp
  qed
  moreover have "u \<in> set (filter (\<lambda>v. \<not> acceptable P v) urls)"
    using u nu by simp
  moreover have "\<exists>later. errors (results ?s) = map (rejectionText P) (filter (\<lambda>v. \<not> acceptable P v) urls) @ later
                       \<and> failed (results ?s) = length (filter (\<lambda>v. \<not> acceptable P v) urls) + length later"
    using results_of_run [of P st urls evs] by blast
  ultimately show ?thesis
    unfolding Let_def inv_eq rt by blast
qed

text \<open>
  What the duplicate check achieves. Let \<open>u\<close> be an address of the batch whose trimmed text
  passes the validation and equals the source URL of a feed present at the start. At every
  moment of the call, \<open>u\<close> is among the addresses counted as skipped, one count each; no
  network call was made for it; and every error string, failure and success belongs to an
  address that failed the validation or to an address that was passed to the resolver, so none
  belongs to \<open>u\<close>.
\<close>

lemma batch_skips_existing:
  assumes u: "u \<in> set urls"
      and ok: "P (trim u) = Some ''http:'' \<or> P (trim u) = Some ''https:''"
      and ex: "trim u \<in> set (map feed_url (feeds st))"
  shows "let s = addFeedsBatch P st urls evs;
             valid = (\<lambda>v. P (trim v) = Some ''http:'' \<or> P (trim v) = Some ''https:'');
             existing = filter (\<lambda>v. valid v \<and> trim v \<in> set (map feed_url (feeds st))) urls;
             invalid = filter (\<lambda>v. \<not> valid v) urls
         in u \<in> set existing \<and> u \<notin> set invalid
            \<and> skipped (results s) = length existing
            \<and> trim u \<notin> set (calls s)
            \<and> (\<exists>later. errors (results s) = map (rejectionText P) invalid @ later
                  \<and> failed (results s) = length invalid + length later
                  \<and> (\<forall>e\<in>set later. \<exists>c\<in>set (calls s). \<exists>m. e = c @ '': '' @ m)
                  \<and> success (results s) + length later \<le> length (calls s))"
proof -
  let ?s = "addFeedsBatch P st urls evs"
  have v: "(\<lambda>v. P (trim v) = Some ''http:'' \<or> P (trim v) = Some ''https:'') = acceptable P"
    by (simp add: acceptable_iff fun_eq_iff)
  have au: "acceptable P u" using ok by (simp add: acceptable_iff)
  have "trim u \<notin> set (calls ?s)"
  proof
    assume "trim u \<in> set (calls ?s)"
    then obtain w where "trim u = trim w" "trim w \<notin> set (map feed_url (feeds st))"
      using calls_are_candidates by blast
    with ex show False by simp
  qed
  then show ?thesis
    unfolding Let_def v using results_of_run [of P st urls evs] u au ex by simp
qed

text \<open>
  Claim C9. At every moment of a call, the progress callback has received the completed
  counts \<open>1, 2, \<dots>, m\<close> in this order, each with the same total, the number of candidates of
  the batch. It was called at most once for each settled race, and never more often than
  addresses have completed. When no event of the run aborts or cancels and the call has
  returned, \<open>m\<close> is the total.
\<close>

theorem progress_sequence:
  "let s = addFeedsBatch P st urls evs;
       total = length (snd (prefilter P (feeds st) urls))
   in progress s = map (\<lambda>k. (k, total)) [1..<Suc (length (progress s))]
      \<and> length (progress s) \<le> completed s
      \<and> length (progress s) \<le> length (filter (\<lambda>e. e \<noteq> Abort) evs)
      \<and> ((\<forall>ev\<in>set evs. \<not> disturbs ev) \<and> returned s \<noteq> None \<longrightarrow> length (progress s) = total)"
proof -
  let ?s = "addFeedsBatch P st urls evs"
  have inv: "batch_inv (fst (prefilter P (feeds st) urls)) (feeds st) ?s"
    by (rule inv_addFeedsBatch)
  then have c: "counting ?s" by (simp add: batch_inv_def)
  have n: "newUrls ?s = snd (prefilter P (feeds st) urls)"
    by (simp add: newUrls_addFeedsBatch prefilter_eq)
  have p0: "progress (startBatch P st urls) = []"
    by (simp add: startBatch_eq split: prod.splits)
  have a: "progress ?s = map (\<lambda>k. (k, length (newUrls ?s))) [1..<Suc (length (progress ?s))]"
    using c unfolding counting_def by blast
  have b: "length (progress ?s) \<le> completed ?s"
    using c by (simp add: counting_def)
  have d: "length (progress ?s) \<le> length (filter (\<lambda>e. e \<noteq> Abort) evs)"
    using progress_run [of "startBatch P st urls" evs] p0 by (simp add: addFeedsBatch_def)
  have e: "length (progress ?s) = length (newUrls ?s)"
    if "\<forall>ev\<in>set evs. \<not> disturbs ev" "returned ?s \<noteq> None"
  proof -
    have "undisturbed ?s"
      unfolding addFeedsBatch_def
      using undisturbed_run [OF undisturbed_start inv_start that(1)] .
    moreover have "list_all (\<lambda>w. w = Done) (workers ?s)"
      using that(2) by (simp add: returned_def split: if_splits)
    ultimately show ?thesis
      using undisturbed_finished [OF _ c] by blast
  qed
  show ?thesis
    unfolding Let_def n [symmetric] using a b d e by blast
qed

text \<open>Runs in which every event commits a feed.\<close>

lemma commits_not_disturbs: "commits ev \<Longrightarrow> \<not> disturbs ev"
  by (cases ev rule: disturbs.cases) auto

lemma commit_step:
  assumes w: "w < length (workers b)" "workers b ! w = Waiting url"
      and na: "\<not> aborted b" and ne: "pf_items parsed \<noteq> []"
  shows "feeds (app (step b (Settle w (Fulfilled parsed) newId stamp now)))
           = \<lparr> feed_id = newId, feed_title = pf_title parsed, feed_url = url,
                feed_description = pf_description parsed, feed_lastUpdated = Some stamp \<rparr> # feeds (app b)"
    and "completed (step b (Settle w (Fulfilled parsed) newId stamp now)) = completed b + 1"
    and "success (results (step b (Settle w (Fulfilled parsed) newId stamp now))) = success (results b) + 1"
  using assms
  by (simp_all add: step_def resume_def tryBlock_def commitFeed_def Let_def endOfIteration_eq)

lemma all_committed_step:
  assumes "\<not> aborted s" "commits ev" "completed s = success (results s)"
  shows "completed (step s ev) = success (results (step s ev))"
proof (cases ev rule: commits.cases)
  case (3 w parsed newId stamp now)
  with assms(2) have ne: "pf_items parsed \<noteq> []" by simp
  show ?thesis
  proof (cases "w < length (workers s)")
    case True
    show ?thesis
    proof (cases "workers s ! w")
      case (Waiting url)
      show ?thesis
        unfolding 3 using commit_step(2,3) [OF True Waiting assms(1) ne] assms(3) by simp
    qed (use True assms(3) in \<open>simp_all add: step_def 3\<close>)
  qed (use assms(3) in \<open>simp add: step_def 3\<close>)
qed (use assms(2) in simp_all)

lemma all_committed_run:
  assumes "undisturbed s" "batch_inv res fs s" "completed s = success (results s)" "list_all commits evs"
  shows "completed (foldl step s evs) = success (results (foldl step s evs))"
  using assms
proof (induction evs arbitrary: s)
  case Nil
  then show ?case by simp
next
  case (Cons ev evs)
  then have ev: "commits ev" and rest: "list_all commits evs" by simp_all
  have na: "\<not> aborted s" using Cons.prems(1) by (simp add: undisturbed_def)
  have "undisturbed (step s ev)"
    using undisturbed_step [of s ev] Cons.prems(1,2) commits_not_disturbs [OF ev]
    by (simp add: batch_inv_def)
  moreover have "batch_inv res fs (step s ev)"
    using inv_step Cons.prems(2) by blast
  moreover have "completed (step s ev) = success (results (step s ev))"
    using all_committed_step [OF na ev Cons.prems(3)] .
  ultimately show ?case
    using Cons.IH [of "step s ev"] rest by simp
qed

text \<open>
  Claim C10. The candidates of a batch are the trimmed addresses that pass the validation and
  are not the source URL of a feed present at the start, one candidate for each occurrence in
  the input, in input order: an address that occurs twice is a candidate twice. When every
  event of a run commits a feed and the call has returned, every candidate was passed to the
  resolver, every candidate counts as a success, and the feeds are those of the start with the
  new feeds in front, one new feed for each occurrence of each candidate address. A commit
  adds its feed, with the id generated for it, whatever feeds are already there.
\<close>

theorem batch_keeps_duplicates:
  "let s = addFeedsBatch P st urls evs
   in newUrls s = map trim (filter (\<lambda>v. (P (trim v) = Some ''http:'' \<or> P (trim v) = Some ''https:'')
                                       \<and> trim v \<notin> set (map feed_url (feeds st))) urls)
      \<and> (list_all commits evs \<and> returned s \<noteq> None \<longrightarrow>
            calls s = newUrls s
            \<and> success (results s) = length (newUrls s)
            \<and> (\<exists>new. feeds (app s) = new @ feeds st \<and> mset (map feed_url new) = mset (newUrls s)))
      \<and> (\<forall>b w url parsed newId stamp now.
            w < length (workers b) \<and> workers b ! w = Waiting url \<and> \<not> aborted b \<and> pf_items parsed \<noteq> [] \<longrightarrow>
            feeds (app (step b (Settle w (Fulfilled parsed) newId stamp now)))
              = \<lparr> feed_id = newId, feed_title = pf_title parsed, feed_url = url,
                   feed_description = pf_description parsed, feed_lastUpdated = Some stamp \<rparr> # feeds (app b))"
proof -
  let ?s = "addFeedsBatch P st urls evs"
  have inv: "batch_inv (fst (prefilter P (feeds st) urls)) (feeds st) ?s"
    by (rule inv_addFeedsBatch)
  then have c: "counting ?s" and m: "committing (feeds st) ?s" by (simp_all add: batch_inv_def)
  have v: "(\<lambda>v. (P (trim v) = Some ''http:'' \<or> P (trim v) = Some ''https:'')
               \<and> trim v \<notin> set (map feed_url (feeds st)))
           = (\<lambda>v. acceptable P v \<and> trim v \<notin> set (map feed_url (feeds st)))"
    by (simp add: acceptable_iff fun_eq_iff)
  have first: "newUrls ?s = map trim (filter (\<lambda>v. (P (trim v) = Some ''http:'' \<or> P (trim v) = Some ''https:'')
                                       \<and> trim v \<notin> set (map feed_url (feeds st))) urls)"
    unfolding v by (rule newUrls_addFeedsBatch)
  have second: "calls ?s = newUrls ?s \<and> success (results ?s) = length (newUrls ?s)
            \<and> (\<exists>new. feeds (app ?s) = new @ feeds st \<and> mset (map feed_url new) = mset (newUrls ?s))"
    if all: "list_all commits evs" and ret: "returned ?s \<noteq> None"
  proof -
    have nd: "\<forall>ev\<in>set evs. \<not> disturbs ev"
      using all commits_not_disturbs by (auto simp: list_all_iff)
    have und: "undisturbed ?s"
      unfolding addFeedsBatch_def
      using undisturbed_run [OF undisturbed_start inv_start nd] .
    have fin: "list_all (\<lambda>w. w = Done) (workers ?s)"
      using ret by (simp add: returned_def split: if_splits)
    note f = undisturbed_finished [OF und c fin]
    have start: "completed (startBatch P st urls) = success (results (startBatch P st urls))"
      by (simp add: startBatch_eq prefilter_eq)
    have cs: "completed ?s = success (results ?s)"
      unfolding addFeedsBatch_def
      using all_committed_run [OF undisturbed_start inv_start start all] .
    from m obtain new others where
      n: "feeds (app ?s) = new @ feeds st" "success (results ?s) = length new"
         "mset (map feed_url new) + mset (waitingUrls (workers ?s)) + mset others
            = mset (take (index ?s) (newUrls ?s))"
      unfolding committing_def by blast
    have eq: "mset (map feed_url new) + mset others = mset (newUrls ?s)"
      using n(3) f all_Done_waiting [OF fin] by simp
    have "length new + length others = length (newUrls ?s)"
      using arg_cong [OF eq, of size] by simp
    then have "others = []"
      using n(2) cs f by simp
    with eq have "mset (map feed_url new) = mset (newUrls ?s)" by simp
    with n(1) n(2) cs f show ?thesis by auto
  qed
  show ?thesis
    unfolding Let_def using first second commit_step(1) by blast
qed

text \<open>Evaluation of a call on concrete input.\<close>

lemmas batch_eval = addFeedsBatch_def startBatch_def prefilter_def prefilterStep_def emptyResult_def
  MAX_CONCURRENT_def claimNext_def step_def resume_def cancelWorker_def endOfIteration_def
  tryBlock_def catchBlock_def commitFeed_def finallyBlock_def returned_def
  trim_def isWhiteSpace_def sampleUrlProtocol_def sampleFeed_def sampleParsed_def emptyParsedItem_def
  emptyState_def oneEntryFeed_def tenUrls_def Let_def

text \<open>
  Claim C2 (a batch cancelled after \<open>k\<close> commits keeps these \<open>k\<close> feeds and never delivers
  its result). A batch of ten addresses is aborted after three of them have committed. The
  three feeds and their entries stay in the state, as the claim says. But every waiting
  worker leaves its loop on the abort, \<open>executeBatch\<close> ends, and the call returns: its promise
  is fulfilled with the results object, which counts the three successes.
\<close>

theorem cancelled_batch_returns_results:
  "let s = addFeedsBatch sampleUrlProtocol emptyState tenUrls
             [Settle 0 oneEntryFeed ''id0'' 1 (\<lambda>i. 1), Settle 1 oneEntryFeed ''id1'' 2 (\<lambda>i. 2),
              Settle 2 oneEntryFeed ''id2'' 3 (\<lambda>i. 3), Abort]
   in map feed_id (feeds (app s)) = [''id2'', ''id1'', ''id0'']
      \<and> map feed_url (feeds (app s)) = [''http://s2.example/feed'', ''http://s1.example/feed'', ''http://s0.example/feed'']
      \<and> length (items (app s)) = 3
      \<and> returned s = Some (Fulfilled \<lparr> success = 3, failed = 0, skipped = 0, errors = [] \<rparr>)"
  by (simp add: batch_eval convertToRSSItems_def)

lemmas url_eval = trim_def isWhiteSpace_def sampleUrlProtocol_def sampleFeed_def emptyState_def

text \<open>The theorem for C7 at a batch of a good address, an \<open>ftp\<close> address and a text that
  is no address, with the good address timing out.\<close>

theorem batch_rejects_invalid_witness:
  "let urls = [''http://a.example/feed'', ''ftp://files.example/feed'', ''not a url''];
       s = addFeedsBatch sampleUrlProtocol emptyState urls [Settle 0 (Rejected msgTimeout) [] 0 (\<lambda>i. 0)]
   in sampleUrlProtocol (trim ''ftp://files.example/feed'') = Some ''ftp:''
      \<and> ''ftp://files.example/feed'' \<notin> set (calls s)
      \<and> (\<exists>later. errors (results s)
            = [''ftp://files.example/feed: '' @ msgBadProtocol, ''not a url: '' @ msgBadUrl] @ later
            \<and> failed (results s) = 2 + length later)"
proof -
  let ?urls = "[''http://a.example/feed'', ''ftp://files.example/feed'', ''not a url'']"
  have h: "''ftp://files.example/feed'' \<in> set ?urls"
    "sampleUrlProtocol (trim ''ftp://files.example/feed'') \<noteq> Some ''http:''"
    "sampleUrlProtocol (trim ''ftp://files.example/feed'') \<noteq> Some ''https:''"
    by (simp_all add: url_eval)
  have p: "sampleUrlProtocol (trim ''ftp://files.example/feed'') = Some ''ftp:''"
    "trim ''ftp://files.example/feed'' = ''ftp://files.example/feed''"
    by (simp_all add: url_eval)
  have f: "filter (\<lambda>v. sampleUrlProtocol (trim v) \<noteq> Some ''http:'' \<and> sampleUrlProtocol (trim v) \<noteq> Some ''https:'') ?urls
           = [''ftp://files.example/feed'', ''not a url'']"
    by (simp add: url_eval)
  have m: "map (\<lambda>v. v @ '': '' @ (if sampleUrlProtocol (trim v) = None then msgBadUrl else msgBadProtocol))
             [''ftp://files.example/feed'', ''not a url'']
           = [''ftp://files.example/feed: '' @ msgBadProtocol, ''not a url: '' @ msgBadUrl]"
    by (simp add: url_eval)
  show ?thesis
    using batch_rejects_invalid [of "''ftp://files.example/feed''" ?urls sampleUrlProtocol emptyState
        "[Settle 0 (Rejected msgTimeout) [] 0 (\<lambda>i. 0)]", OF h]
    unfolding Let_def f m p by (simp add: sampleUrlProtocol_def)
qed

text \<open>The duplicate check at a batch whose first address, written with spaces around it,
  is after trimming the source URL of the one feed of the state.\<close>

lemma batch_skips_existing_example:
  "let st = \<lparr> feeds = [sampleFeed ''f1'' ''http://a.example/feed''], items = [] \<rparr>;
       urls = ['' http://a.example/feed '', ''http://b.example/feed''];
       s = addFeedsBatch sampleUrlProtocol st urls [Settle 0 oneEntryFeed ''f2'' 1 (\<lambda>i. 1)]
   in trim '' http://a.example/feed '' = ''http://a.example/feed''
      \<and> sampleUrlProtocol ''http://a.example/feed'' = Some ''http:''
      \<and> ''http://a.example/feed'' \<notin> set (calls s)
      \<and> skipped (results s) = 1"
proof -
  let ?st = "\<lparr> feeds = [sampleFeed ''f1'' ''http://a.example/feed''], items = [] \<rparr>"
  let ?urls = "['' http://a.example/feed '', ''http://b.example/feed'']"
  have p: "trim '' http://a.example/feed '' = ''http://a.example/feed''"
    "sampleUrlProtocol ''http://a.example/feed'' = Some ''http:''"
    by (simp_all add: url_eval)
  have h: "'' http://a.example/feed '' \<in> set ?urls"
    "sampleUrlProtocol (trim '' http://a.example/feed '') = Some ''http:''
     \<or> sampleUrlProtocol (trim '' http://a.example/feed '') = Some ''https:''"
    "trim '' http://a.example/feed '' \<in> set (map feed_url (feeds ?st))"
    by (simp_all add: url_eval)
  have f: "filter (\<lambda>v. (sampleUrlProtocol (trim v) = Some ''http:'' \<or> sampleUrlProtocol (trim v) = Some ''https:'')
                       \<and> trim v \<in> set (map feed_url (feeds ?st))) ?urls
           = ['' http://a.example/feed '']"
    by (simp add: url_eval)
  show ?thesis
    using batch_skips_existing [of "'' http://a.example/feed ''" ?urls sampleUrlProtocol ?st
        "[Settle 0 oneEntryFeed ''f2'' 1 (\<lambda>i. 1)]", OF h]
    unfolding Let_def f p by simp
qed

text \<open>
  Claim C8 (an address of the batch that exactly matches the source URL of a feed is skipped,
  without a network call). The single add stores the address as it was typed, so a feed can
  hold a source URL with a leading space. A batch with exactly this text is not skipped: the
  check compares the trimmed text with the stored URLs and finds it in no feed, the address is
  passed to the resolver, and on success a second feed for the same site is committed.
\<close>

theorem batch_refetches_subscribed:
  "let st = \<lparr> feeds = [sampleFeed ''f1'' '' http://a.example/feed''], items = [] \<rparr>;
       urls = ['' http://a.example/feed''];
       s = addFeedsBatch sampleUrlProtocol st urls [Settle 0 oneEntryFeed ''f2'' 1 (\<lambda>i. 1)]
   in set urls \<subseteq> set (map feed_url (feeds st))
      \<and> calls s = [''http://a.example/feed'']
      \<and> results s = \<lparr> success = 1, failed = 0, skipped = 0, errors = [] \<rparr>
      \<and> map feed_url (feeds (app s)) = [''http://a.example/feed'', '' http://a.example/feed'']"
  by (simp add: batch_eval)

text \<open>The theorem for C9 at a batch of three addresses that complete out of order, one of
  them by the timer.\<close>

theorem progress_sequence_witness:
  "let urls = [''http://a.example/feed'', ''http://b.example/feed'', ''http://c.example/feed''];
       evs = [Settle 1 oneEntryFeed ''f1'' 1 (\<lambda>i. 1), Settle 0 (Rejected msgTimeout) [] 0 (\<lambda>i. 0),
              Settle 2 oneEntryFeed ''f2'' 2 (\<lambda>i. 2)];
       s = addFeedsBatch sampleUrlProtocol emptyState urls evs
   in (\<forall>ev\<in>set evs. \<not> disturbs ev) \<and> returned s \<noteq> None
      \<and> progress s = [(1, 3), (2, 3), (3, 3)]"
proof -
  let ?urls = "[''http://a.example/feed'', ''http://b.example/feed'', ''http://c.example/feed'']"
  let ?evs = "[Settle 1 oneEntryFeed ''f1'' 1 (\<lambda>i. 1), Settle 0 (Rejected msgTimeout) [] 0 (\<lambda>i. 0),
              Settle 2 oneEntryFeed ''f2'' 2 (\<lambda>i. 2)]"
  let ?s = "addFeedsBatch sampleUrlProtocol emptyState ?urls ?evs"
  have d: "\<forall>ev\<in>set ?evs. \<not> disturbs ev"
    by (simp add: oneEntryFeed_def msgTimeout_def msgCancelled_def)
  have r: "returned ?s \<noteq> None"
    by (simp add: batch_eval msgTimeout_def msgCancelled_def)
  have n: "length (snd (prefilter sampleUrlProtocol (feeds emptyState) ?urls)) = 3"
    by (simp add: prefilter_def prefilterStep_def emptyResult_def url_eval)
  from progress_sequence [of sampleUrlProtocol emptyState ?urls ?evs] d r
  have p: "progress ?s = map (\<lambda>k. (k, 3)) [1..<Suc (length (progress ?s))]"
    and l: "length (progress ?s) = 3"
    unfolding Let_def n by blast+
  have "map (\<lambda>k. (k, 3::nat)) [1..<Suc 3] = [(1, 3), (2, 3), (3, 3)]"
    by code_simp
  with p have "progress ?s = [(1, 3), (2, 3), (3, 3)]"
    unfolding l by simp
  with d r show ?thesis
    unfolding Let_def by blast
qed

text \<open>The theorem for C10 at a batch that names a new address twice and a subscribed one
  once, the two fetches completing in reverse order.\<close>

theorem batch_keeps_duplicates_witness:
  "let st = \<lparr> feeds = [sampleFeed ''f0'' ''http://old.example/feed''], items = [] \<rparr>;
       urls = [''http://a.example/feed'', ''http://old.example/feed'', ''http://a.example/feed''];
       evs = [Settle 1 oneEntryFeed ''f2'' 2 (\<lambda>i. 2), Settle 0 oneEntryFeed ''f1'' 1 (\<lambda>i. 1)];
       s = addFeedsBatch sampleUrlProtocol st urls evs
   in list_all commits evs \<and> returned s \<noteq> None
      \<and> calls s = [''http://a.example/feed'', ''http://a.example/feed'']
      \<and> success (results s) = 2
      \<and> (\<exists>new. feeds (app s) = new @ feeds st
               \<and> mset (map feed_url new) = mset [''http://a.example/feed'', ''http://a.example/feed''])"
proof -
  let ?st = "\<lparr> feeds = [sampleFeed ''f0'' ''http://old.example/feed''], items = [] \<rparr>"
  let ?urls = "[''http://a.example/feed'', ''http://old.example/feed'', ''http://a.example/feed'']"
  let ?evs = "[Settle 1 oneEntryFeed ''f2'' 2 (\<lambda>i. 2), Settle 0 oneEntryFeed ''f1'' 1 (\<lambda>i. 1)]"
  let ?s = "addFeedsBatch sampleUrlProtocol ?st ?urls ?evs"
  have c: "list_all commits ?evs"
    by (simp add: oneEntryFeed_def sampleParsed_def)
  have r: "returned ?s \<noteq> None"
    by (simp add: batch_eval)
  have f: "map trim (filter (\<lambda>v. (sampleUrlProtocol (trim v) = Some ''http:'' \<or> sampleUrlProtocol (trim v) = Some ''https:'')
                                \<and> trim v \<notin> set (map feed_url (feeds ?st))) ?urls)
           = [''http://a.example/feed'', ''http://a.example/feed'']"
    by (simp add: url_eval)
  from batch_keeps_duplicates [of sampleUrlProtocol ?st ?urls ?evs] c r
  have "newUrls ?s = [''http://a.example/feed'', ''http://a.example/feed'']"
    "calls ?s = newUrls ?s" "success (results ?s) = length (newUrls ?s)"
    "\<exists>new. feeds (app ?s) = new @ feeds ?st \<and> mset (map feed_url new) = mset (newUrls ?s)"
    unfolding Let_def f by blast+
  with c r show ?thesis
    unfolding Let_def by simp
qed

end
